theory Spec2Isabelle
  imports Main "HOL-Library.Word"
begin

unbundle bit_operations_syntax

section \<open>Data model of utf\_std\<close>

text \<open>
  \<^verbatim>\<open>typedef int32_t unicode_t;\<close> Every comparison the source makes on a \<^verbatim>\<open>unicode_t\<close>
  has an unsigned literal (\<^verbatim>\<open>0x...u\<close>) or a \<^verbatim>\<open>static_cast<uint32_t>\<close> on one side, so it
  is the unsigned comparison of 32-bit words; the sign is read with \<open>sint\<close>.
  \<^verbatim>\<open><<\<close> is \<open>push_bit\<close>; \<^verbatim>\<open>>>\<close> on a \<^verbatim>\<open>unicode_t\<close> is the arithmetic shift
  \<open>signed_drop_bit\<close>.

  A \<^verbatim>\<open>uint8_t*\<close> is \<open>None\<close> for \<^verbatim>\<open>nullptr\<close>, else the bytes from the pointer on;
  \<^verbatim>\<open>&buffer[n]\<close> drops \<open>n\<close> bytes. The caller vouches for \<^verbatim>\<open>size\<close> bytes being
  there (\<open>unat size \<le> length buf\<close>); the parameter \<^verbatim>\<open>size\<close> is written \<open>size'\<close>.
\<close>

type_synonym uint8_t = "8 word"
type_synonym uint32_t = "32 word"
type_synonym unicode_t = "32 word"
type_synonym buffer_t = "uint8_t list option"

datatype UTF_TYPE = UTF8 | UTF16le | UTF16be | UTF32le | UTF32be | OTHER | COUNT

text \<open>A rune: a Unicode scalar value, as a \<^verbatim>\<open>unicode_t\<close>.\<close>

definition is_rune :: "unicode_t \<Rightarrow> bool" where
  "is_rune u = (0 \<le> sint u \<and> uint u \<le> 0x10FFFF \<and> \<not> (0xD800 \<le> uint u \<and> uint u \<le> 0xDFFF))"

section \<open>Encoding identification\<close>


section \<open>Per-encoding transform primitives\<close>

text \<open>
  A decoder returns \<open>(success, unicode, bytes)\<close>; an encoder returns
  \<open>(success, bytes, buffer)\<close>, the buffer as the call leaves it.
\<close>

type_synonym get_result = "bool \<times> unicode_t \<times> uint32_t"
type_synonym set_result = "bool \<times> uint32_t \<times> buffer_t"

text \<open>The common exit of \<^verbatim>\<open>getUTF8\<close> once the lead byte is read:
  \<^verbatim>\<open>unicode |= 0x80000000u; return false;\<close> with \<^verbatim>\<open>bytes\<close> still 1.\<close>

definition getUTF8_fail :: "unicode_t \<Rightarrow> get_result" where
  "getUTF8_fail unicode = (False, unicode OR 0x80000000, 1)"

definition getUTF8 :: "buffer_t \<Rightarrow> uint32_t \<Rightarrow> bool \<Rightarrow> get_result" where
  "getUTF8 buffer size' use_java =
    (case buffer of
      None \<Rightarrow> (False, 0, 0)
    | Some b \<Rightarrow>
        if \<not> size' \<ge> 1 then (False, 0, 0)
        else
          let byte = b ! 0; unicode = (ucast byte :: unicode_t) in
          if byte + 8 \<le> 0xc7 then
            (if byte \<le> 0x7f then (True, unicode, 1) else getUTF8_fail unicode)
          else if byte \<le> 0xdf then
            (if size' \<ge> 2 then
               let value = unicode AND 0x1f; byte = b ! 1 in
               if byte AND 0xc0 = 0x80 then
                 let value = push_bit 6 value + (ucast byte AND 0x3f) in
                 if value \<ge> 0x00000080 \<or> (use_java \<and> value = 0x00000000)
                 then (True, value, 2) else getUTF8_fail unicode
               else getUTF8_fail unicode
             else getUTF8_fail unicode)
          else if byte \<le> 0xef then
            (if size' \<ge> 3 then
               let value = unicode AND 0x0f; byte = b ! 1 in
               if byte AND 0xc0 = 0x80 then
                 let value = push_bit 6 value + (ucast byte AND 0x3f); byte = b ! 2 in
                 if byte AND 0xc0 = 0x80 then
                   let value = push_bit 6 value + (ucast byte AND 0x3f) in
                   if value \<ge> 0x00000800 \<and> value AND 0xfffff800 \<noteq> 0x0000d800
                   then (True, value, 3) else getUTF8_fail unicode
                 else getUTF8_fail unicode
               else getUTF8_fail unicode
             else getUTF8_fail unicode)
          else
            (if size' \<ge> 4 then
               let value = unicode AND 0x07; byte = b ! 1 in
               if byte AND 0xc0 = 0x80 then
                 let value = push_bit 6 value + (ucast byte AND 0x3f); byte = b ! 2 in
                 if byte AND 0xc0 = 0x80 then
                   let value = push_bit 6 value + (ucast byte AND 0x3f); byte = b ! 3 in
                   if byte AND 0xc0 = 0x80 then
                     let value = push_bit 6 value + (ucast byte AND 0x3f) in
                     if value \<ge> 0x00010000 \<and> value \<le> 0x0010ffff
                     then (True, value, 4) else getUTF8_fail unicode
                   else getUTF8_fail unicode
                 else getUTF8_fail unicode
               else getUTF8_fail unicode
             else getUTF8_fail unicode))"

definition setUTF8 :: "buffer_t \<Rightarrow> uint32_t \<Rightarrow> unicode_t \<Rightarrow> bool \<Rightarrow> set_result" where
  "setUTF8 buffer size' unicode use_java =
    (case buffer of
      None \<Rightarrow> (False, 0, buffer)
    | Some b \<Rightarrow>
        if size' \<ge> 1 \<and> unicode \<le> 0x0010ffff then
          if unicode \<le> 0x0000007f then
            (if use_java \<and> unicode = 0 then
               (if size' \<ge> 2 then (True, 2, Some (b[0 := 0xc0, 1 := 0x80]))
                else (False, 0, buffer))
             else
               (if size' \<ge> 1 then (True, 1, Some (b[0 := ucast unicode]))
                else (False, 0, buffer)))
          else if unicode \<le> 0x000007ff then
            (if size' \<ge> 2 then
               (True, 2, Some (b[0 := ucast (signed_drop_bit 6 unicode) OR 0xc0,
                                 1 := (ucast unicode AND 0x3f) OR 0x80]))
             else (False, 0, buffer))
          else if unicode \<le> 0x0000ffff then
            (if size' \<ge> 3 \<and> unicode AND 0xfffff800 \<noteq> 0x0000d800 then
               (True, 3, Some (b[0 := ucast (signed_drop_bit 12 unicode) OR 0xe0,
                                 1 := (ucast (signed_drop_bit 6 unicode) AND 0x3f) OR 0x80,
                                 2 := (ucast unicode AND 0x3f) OR 0x80]))
             else (False, 0, buffer))
          else
            (if size' \<ge> 4 then
               (True, 4, Some (b[0 := ucast (signed_drop_bit 18 unicode) OR 0xf0,
                                 1 := (ucast (signed_drop_bit 12 unicode) AND 0x3f) OR 0x80,
                                 2 := (ucast (signed_drop_bit 6 unicode) AND 0x3f) OR 0x80,
                                 3 := (ucast unicode AND 0x3f) OR 0x80]))
             else (False, 0, buffer))
        else (False, 0, buffer))"

definition getUTF16le :: "buffer_t \<Rightarrow> uint32_t \<Rightarrow> get_result" where
  "getUTF16le buffer size' =
    (case buffer of
      None \<Rightarrow> (False, 0, 0)
    | Some b \<Rightarrow>
        if \<not> size' \<ge> 2 then (False, 0, 0)
        else
          let value = (push_bit 8 (ucast (b ! 1)) + ucast (b ! 0) :: unicode_t) in
          if value AND 0xfffff800 \<noteq> 0x0000d800 then (True, value, 2)
          else if size' \<ge> 4 \<and> value AND 0xfffffc00 = 0x0000d800 then
            let extra = (push_bit 8 (ucast (b ! 3)) + ucast (b ! 2) :: unicode_t) in
            if extra AND 0xfffffc00 = 0x0000dc00 then
              (True, push_bit 10 (value AND 0x000003ff) + (extra AND 0x000003ff) + 0x00010000, 4)
            else (False, 0x80000000, 2)
          else (False, 0x80000000, 2))"

definition setUTF16le :: "buffer_t \<Rightarrow> uint32_t \<Rightarrow> unicode_t \<Rightarrow> set_result" where
  "setUTF16le buffer size' unicode =
    (case buffer of
      None \<Rightarrow> (False, 0, buffer)
    | Some b \<Rightarrow>
        if size' \<ge> 2 \<and> unicode \<le> 0x0010ffff \<and> unicode AND 0xfffff800 \<noteq> 0x0000d800 then
          if unicode \<le> 0x0000ffff then
            (True, 2, Some (b[0 := ucast unicode, 1 := ucast (signed_drop_bit 8 unicode)]))
          else if size' \<ge> 4 then
            let surrogate = unicode - 0x00010000;
                surrogate = ((signed_drop_bit 10 surrogate OR push_bit 16 surrogate)
                              AND 0x03ff03ff) OR 0xdc00d800
            in (True, 4, Some (b[0 := ucast surrogate,
                                  1 := ucast (signed_drop_bit 8 surrogate),
                                  2 := ucast (signed_drop_bit 16 surrogate),
                                  3 := ucast (signed_drop_bit 24 surrogate)]))
          else (False, 0, buffer)
        else (False, 0, buffer))"

definition getUTF16be :: "buffer_t \<Rightarrow> uint32_t \<Rightarrow> get_result" where
  "getUTF16be buffer size' =
    (case buffer of
      None \<Rightarrow> (False, 0, 0)
    | Some b \<Rightarrow>
        if \<not> size' \<ge> 2 then (False, 0, 0)
        else
          let value = (push_bit 8 (ucast (b ! 0)) + ucast (b ! 1) :: unicode_t) in
          if value AND 0xfffff800 \<noteq> 0x0000d800 then (True, value, 2)
          else if size' \<ge> 4 \<and> value AND 0xfffffc00 = 0x0000d800 then
            let extra = (push_bit 8 (ucast (b ! 2)) + ucast (b ! 3) :: unicode_t) in
            if extra AND 0xfffffc00 = 0x0000dc00 then
              (True, push_bit 10 (value AND 0x000003ff) + (extra AND 0x000003ff) + 0x00010000, 4)
            else (False, 0x80000000, 2)
          else (False, 0x80000000, 2))"

definition setUTF16be :: "buffer_t \<Rightarrow> uint32_t \<Rightarrow> unicode_t \<Rightarrow> set_result" where
  "setUTF16be buffer size' unicode =
    (case buffer of
      None \<Rightarrow> (False, 0, buffer)
    | Some b \<Rightarrow>
        if size' \<ge> 2 \<and> unicode \<le> 0x0010ffff \<and> unicode AND 0xfffff800 \<noteq> 0x0000d800 then
          if unicode \<le> 0x0000ffff then
            (True, 2, Some (b[0 := ucast (signed_drop_bit 8 unicode), 1 := ucast unicode]))
          else if size' \<ge> 4 then
            let surrogate = unicode - 0x00010000;
                surrogate = ((signed_drop_bit 10 surrogate OR push_bit 16 surrogate)
                              AND 0x03ff03ff) OR 0xdc00d800
            in (True, 4, Some (b[0 := ucast (signed_drop_bit 8 surrogate),
                                  1 := ucast surrogate,
                                  2 := ucast (signed_drop_bit 24 surrogate),
                                  3 := ucast (signed_drop_bit 16 surrogate)]))
          else (False, 0, buffer)
        else (False, 0, buffer))"

definition getUTF32le :: "buffer_t \<Rightarrow> uint32_t \<Rightarrow> get_result" where
  "getUTF32le buffer size' =
    (case buffer of
      None \<Rightarrow> (False, 0, 0)
    | Some b \<Rightarrow>
        if \<not> size' \<ge> 4 then (False, 0, 0)
        else
          let value = (push_bit 8 (push_bit 8 (push_bit 8 (ucast (b ! 3)) + ucast (b ! 2))
                         + ucast (b ! 1)) + ucast (b ! 0) :: unicode_t) in
          if value \<le> 0x0010ffff \<and> value AND 0xfffff800 \<noteq> 0x0000d800 then (True, value, 4)
          else (False, 0x80000000, 4))"

definition setUTF32le :: "buffer_t \<Rightarrow> uint32_t \<Rightarrow> unicode_t \<Rightarrow> set_result" where
  "setUTF32le buffer size' unicode =
    (case buffer of
      None \<Rightarrow> (False, 0, buffer)
    | Some b \<Rightarrow>
        if size' \<ge> 4 \<and> unicode \<le> 0x0010ffff \<and> unicode AND 0xfffff800 \<noteq> 0x0000d800 then
          (True, 4, Some (b[0 := ucast unicode,
                            1 := ucast (signed_drop_bit 8 unicode),
                            2 := ucast (signed_drop_bit 16 unicode),
                            3 := ucast (signed_drop_bit 24 unicode)]))
        else (False, 0, buffer))"

definition getUTF32be :: "buffer_t \<Rightarrow> uint32_t \<Rightarrow> get_result" where
  "getUTF32be buffer size' =
    (case buffer of
      None \<Rightarrow> (False, 0, 0)
    | Some b \<Rightarrow>
        if \<not> size' \<ge> 4 then (False, 0, 0)
        else
          let value = (push_bit 8 (push_bit 8 (push_bit 8 (ucast (b ! 0)) + ucast (b ! 1))
                         + ucast (b ! 2)) + ucast (b ! 3) :: unicode_t) in
          if value \<le> 0x0010ffff \<and> value AND 0xfffff800 \<noteq> 0x0000d800 then (True, value, 4)
          else (False, 0x80000000, 4))"

definition setUTF32be :: "buffer_t \<Rightarrow> uint32_t \<Rightarrow> unicode_t \<Rightarrow> set_result" where
  "setUTF32be buffer size' unicode =
    (case buffer of
      None \<Rightarrow> (False, 0, buffer)
    | Some b \<Rightarrow>
        if size' \<ge> 4 \<and> unicode \<le> 0x0010ffff \<and> unicode AND 0xfffff800 \<noteq> 0x0000d800 then
          (True, 4, Some (b[0 := ucast (signed_drop_bit 24 unicode),
                            1 := ucast (signed_drop_bit 16 unicode),
                            2 := ucast (signed_drop_bit 8 unicode),
                            3 := ucast unicode]))
        else (False, 0, buffer))"

section \<open>Single-byte forms\<close>

definition getBYTE :: "buffer_t \<Rightarrow> uint32_t \<Rightarrow> bool \<Rightarrow> get_result" where
  "getBYTE buffer size' use_ascii =
    (case buffer of
      None \<Rightarrow> (False, 0, 0)
    | Some b \<Rightarrow>
        if \<not> size' \<ge> 1 then (False, 0, 0)
        else
          let byte = b ! 0 in
          if \<not> use_ascii \<or> byte \<le> 0x7f then (True, ucast (b ! 0), 1)
          else (False, 0x80000000 + ucast byte, 1))"

definition setBYTE :: "buffer_t \<Rightarrow> uint32_t \<Rightarrow> unicode_t \<Rightarrow> bool \<Rightarrow> set_result" where
  "setBYTE buffer size' unicode use_ascii =
    (case buffer of
      None \<Rightarrow> (False, 0, buffer)
    | Some b \<Rightarrow>
        if size' \<ge> 1 \<and> unicode \<le> (if use_ascii then 0x0000007f else 0x000000ff)
        then (True, 1, Some (b[0 := ucast unicode]))
        else (False, 0, buffer))"

section \<open>Cursor-based streaming layer\<close>

text \<open>\<^verbatim>\<open>struct utf_text { uint32_t length; uint32_t offset; uint8_t* buffer; };\<close>
  (the field \<^verbatim>\<open>length\<close> is written \<open>length'\<close>).\<close>

record utf_text =
  length' :: uint32_t
  offset :: uint32_t
  buffer :: buffer_t

text \<open>
  The abstract class \<^verbatim>\<open>IUTF\<close>: its pure virtual members are the fields of a record,
  \<open>get\<close> and \<open>set'\<close> being the virtual \<^verbatim>\<open>get(buffer, size, unicode, bytes)\<close> and
  \<^verbatim>\<open>set(buffer, size, unicode, bytes)\<close>. The non-virtual members \<^verbatim>\<open>IUTF::name\<close> on a
  \<^verbatim>\<open>utf_text\<close> are the functions \<open>IUTF_name\<close> below, which take the handler first.
\<close>

record IUTF =
  utfType :: UTF_TYPE
  unitSize :: uint32_t
  get :: "buffer_t \<Rightarrow> uint32_t \<Rightarrow> get_result"
  set' :: "buffer_t \<Rightarrow> uint32_t \<Rightarrow> unicode_t \<Rightarrow> set_result"

definition CUTF8 :: IUTF where
  "CUTF8 = \<lparr>utfType = UTF8, unitSize = 1,
            get = (\<lambda>b s. getUTF8 b s False), set' = (\<lambda>b s u. setUTF8 b s u False)\<rparr>"

definition CJUTF8 :: IUTF where
  "CJUTF8 = \<lparr>utfType = UTF8, unitSize = 1,
             get = (\<lambda>b s. getUTF8 b s True), set' = (\<lambda>b s u. setUTF8 b s u True)\<rparr>"

definition CUTF16le :: IUTF where
  "CUTF16le = \<lparr>utfType = UTF16le, unitSize = 2, get = getUTF16le, set' = setUTF16le\<rparr>"

definition CUTF16be :: IUTF where
  "CUTF16be = \<lparr>utfType = UTF16be, unitSize = 2, get = getUTF16be, set' = setUTF16be\<rparr>"

definition CUTF32le :: IUTF where
  "CUTF32le = \<lparr>utfType = UTF32le, unitSize = 4, get = getUTF32le, set' = setUTF32le\<rparr>"

definition CUTF32be :: IUTF where
  "CUTF32be = \<lparr>utfType = UTF32be, unitSize = 4, get = getUTF32be, set' = setUTF32be\<rparr>"

definition CBYTE :: IUTF where
  "CBYTE = \<lparr>utfType = OTHER, unitSize = 1,
            get = (\<lambda>b s. getBYTE b s False), set' = (\<lambda>b s u. setBYTE b s u False)\<rparr>"

definition CASCII :: IUTF where
  "CASCII = \<lparr>utfType = OTHER, unitSize = 1,
             get = (\<lambda>b s. getBYTE b s True), set' = (\<lambda>b s u. setBYTE b s u True)\<rparr>"

text \<open>\<^verbatim>\<open>IUTF::getHandler(const UTF_TYPE)\<close>. Its default case (\<^verbatim>\<open>OTHER\<close>, and the
  enumeration's end marker \<^verbatim>\<open>COUNT\<close>) calls \<^verbatim>\<open>getHandler(UTF_OTHER_TYPE::JUTF8)\<close>, which
  returns the \<^verbatim>\<open>CJUTF8\<close> handler.\<close>

fun getHandler :: "UTF_TYPE \<Rightarrow> IUTF" where
  "getHandler UTF8 = CUTF8"
| "getHandler UTF16le = CUTF16le"
| "getHandler UTF16be = CUTF16be"
| "getHandler UTF32le = CUTF32le"
| "getHandler UTF32be = CUTF32be"
| "getHandler OTHER = CJUTF8"
| "getHandler COUNT = CJUTF8"

text \<open>The handlers of this file whose primitives are under \<^verbatim>\<open>utf_std.cpp\<close> in full
  (the code page 1252 handler rests on a translation table of another file).\<close>

definition std_handlers :: "IUTF list" where
  "std_handlers = [CUTF8, CJUTF8, CUTF16le, CUTF16be, CUTF32le, CUTF32be, CBYTE, CASCII]"

text \<open>
  \<^verbatim>\<open>&text.buffer[text.offset]\<close>. \<^verbatim>\<open>IUTF::get\<close> and \<^verbatim>\<open>IUTF::set\<close> form this pointer with no
  test of \<^verbatim>\<open>text.buffer\<close>. From a null buffer at offset 0 it is the null pointer, which the
  primitives test for. From a null buffer at any other offset it is a pointer that is not
  null and points nowhere: forming it is undefined behaviour, it passes the primitives' null
  test, and they read or write through it. That outcome is the error value
  \<open>Null_pointer_offset\<close>, carried by every function of this layer that can reach it;
  nothing more is said of such a call.
\<close>

datatype error = Null_pointer_offset

definition buffer_at :: "utf_text \<Rightarrow> error + buffer_t" where
  "buffer_at text =
    (case buffer text of
      None \<Rightarrow> if offset text = 0 then Inr None else Inl Null_pointer_offset
    | Some b \<Rightarrow> Inr (Some (drop (unat (offset text)) b)))"

text \<open>What a write through \<^verbatim>\<open>&text.buffer[text.offset]\<close> leaves in \<^verbatim>\<open>text.buffer\<close>.\<close>

definition store_at :: "utf_text \<Rightarrow> buffer_t \<Rightarrow> utf_text" where
  "store_at text sub =
    (case (buffer text, sub) of
      (Some b, Some s) \<Rightarrow> text\<lparr>buffer := Some (take (unat (offset text)) b @ s)\<rparr>
    | _ \<Rightarrow> text)"

definition IUTF_get :: "IUTF \<Rightarrow> utf_text \<Rightarrow> error + get_result" where
  "IUTF_get h text =
    (if length' text \<ge> offset text
     then (case buffer_at text of
             Inl e \<Rightarrow> Inl e
           | Inr p \<Rightarrow> Inr (get h p (length' text - offset text)))
     else Inr (False, 0, 0))"

definition IUTF_set ::
  "IUTF \<Rightarrow> utf_text \<Rightarrow> unicode_t \<Rightarrow> error + bool \<times> uint32_t \<times> utf_text" where
  "IUTF_set h text unicode =
    (if length' text \<ge> offset text
     then (case buffer_at text of
             Inl e \<Rightarrow> Inl e
           | Inr p \<Rightarrow>
               (case set' h p (length' text - offset text) unicode of
                 (success, bytes, sub) \<Rightarrow> Inr (success, bytes, store_at text sub)))
     else Inr (False, 0, text))"

text \<open>\<^verbatim>\<open>read\<close> and \<^verbatim>\<open>write\<close> return the success flag (and the scalar read) with the
  cursor as the call leaves it.\<close>

definition IUTF_read :: "IUTF \<Rightarrow> utf_text \<Rightarrow> error + bool \<times> unicode_t \<times> utf_text" where
  "IUTF_read h text =
    (case IUTF_get h text of
      Inl e \<Rightarrow> Inl e
    | Inr (success, unicode, bytes) \<Rightarrow>
        Inr (success, unicode, text\<lparr>offset := offset text + bytes\<rparr>))"

definition IUTF_write :: "IUTF \<Rightarrow> utf_text \<Rightarrow> unicode_t \<Rightarrow> error + bool \<times> utf_text" where
  "IUTF_write h text unicode =
    (case IUTF_set h text unicode of
      Inl e \<Rightarrow> Inl e
    | Inr (success, bytes, text') \<Rightarrow>
        Inr (success, text'\<lparr>offset := offset text' + bytes\<rparr>))"

text \<open>The \<^verbatim>\<open>while (scan.offset < scan.length)\<close> loop of \<^verbatim>\<open>IUTF::validate\<close>; \<open>None\<close> is a
  loop that never ends.\<close>

partial_function (option) validate_loop :: "IUTF \<Rightarrow> utf_text \<Rightarrow> (error + bool) option" where
  "validate_loop h scan =
    (if offset scan < length' scan then
       (case IUTF_read h scan of
         Inl e \<Rightarrow> Some (Inl e)
       | Inr (success, unicode, scan') \<Rightarrow>
           if \<not> success then Some (Inr False) else validate_loop h scan')
     else Some (Inr True))"

definition IUTF_validate :: "IUTF \<Rightarrow> utf_text \<Rightarrow> (error + bool) option" where
  "IUTF_validate h text =
    (if buffer text = None \<or> offset text < length' text then Some (Inr False)
     else validate_loop h text)"

definition IUTF_getNLF :: "IUTF \<Rightarrow> utf_text \<Rightarrow> error + get_result" where
  "IUTF_getNLF h text =
    (case IUTF_get h text of
      Inl e \<Rightarrow> Inl e
    | Inr (success, unicode, bytes) \<Rightarrow>
        if success then
          if unicode = 0x000a \<or> unicode = 0x000d then
            (let next = text\<lparr>offset := offset text + bytes\<rparr> in
             case IUTF_get h next of
               Inl e \<Rightarrow> Inl e
             | Inr (paired, pairing, extra) \<Rightarrow>
                 Inr (success, 0x000a,
                      if paired \<and> unicode = pairing XOR 0x0007 then bytes + extra else bytes))
          else if unicode = 0x000b \<or> unicode = 0x000c \<or> unicode = 0x0085 \<or>
                  unicode = 0x2028 \<or> unicode = 0x2029 then Inr (success, 0x000a, bytes)
          else Inr (success, unicode, bytes)
        else Inr (success, unicode, bytes))"

definition IUTF_readNLF :: "IUTF \<Rightarrow> utf_text \<Rightarrow> error + bool \<times> unicode_t \<times> utf_text" where
  "IUTF_readNLF h text =
    (case IUTF_getNLF h text of
      Inl e \<Rightarrow> Inl e
    | Inr (success, unicode, bytes) \<Rightarrow>
        Inr (success, unicode, text\<lparr>offset := offset text + bytes\<rparr>))"

text \<open>The line \<^verbatim>\<open>getLine\<close> leaves when it fails.\<close>

definition no_line :: utf_text where
  "no_line = \<lparr>length' = 0, offset = 0, buffer = None\<rparr>"

text \<open>The \<^verbatim>\<open>while (getNLF(scan, unicode, bytes))\<close> loop of \<^verbatim>\<open>IUTF::getLine\<close>, returning
  \<open>(success, line, bytes)\<close>; \<open>None\<close> is a loop that never ends.\<close>

partial_function (option) getLine_loop ::
  "IUTF \<Rightarrow> utf_text \<Rightarrow> (error + bool \<times> utf_text \<times> uint32_t) option" where
  "getLine_loop h scan =
    (case IUTF_getNLF h scan of
      Inl e \<Rightarrow> Some (Inl e)
    | Inr (found, unicode, bytes) \<Rightarrow>
        if found then
          if unicode = 0x000a \<or> unicode = 0x0000 then
            Some (Inr (True, \<lparr>length' = offset scan, offset = 0, buffer = buffer scan\<rparr>,
                       bytes + offset scan))
          else getLine_loop h (scan\<lparr>offset := offset scan + bytes\<rparr>)
        else Some (Inr (False, no_line, bytes)))"

text \<open>In \<^verbatim>\<open>getLine\<close> the pointer \<^verbatim>\<open>&text.buffer[text.offset]\<close> is formed under the test
  \<^verbatim>\<open>text.buffer != nullptr\<close>.\<close>

definition IUTF_getLine ::
  "IUTF \<Rightarrow> utf_text \<Rightarrow> (error + bool \<times> utf_text \<times> uint32_t) option" where
  "IUTF_getLine h text =
    (if buffer text \<noteq> None \<and> offset text \<le> length' text then
       (case buffer_at text of
         Inl e \<Rightarrow> Some (Inl e)
       | Inr p \<Rightarrow>
           getLine_loop h \<lparr>length' = length' text - offset text, offset = 0, buffer = p\<rparr>)
     else Some (Inr (False, no_line, 0)))"

definition IUTF_readLine ::
  "IUTF \<Rightarrow> utf_text \<Rightarrow> (error + bool \<times> utf_text \<times> utf_text) option" where
  "IUTF_readLine h text =
    (case IUTF_getLine h text of
      None \<Rightarrow> None
    | Some (Inl e) \<Rightarrow> Some (Inl e)
    | Some (Inr (success, line, bytes)) \<Rightarrow>
        Some (Inr (success, line, text\<lparr>offset := offset text + bytes\<rparr>)))"

text \<open>The bytes a view covers: \<^verbatim>\<open>length\<close> bytes of its buffer.\<close>

definition text_bytes :: "utf_text \<Rightarrow> uint8_t list" where
  "text_bytes text = (case buffer text of None \<Rightarrow> [] | Some b \<Rightarrow> take (unat (length' text)) b)"

text \<open>The sequence form \<^verbatim>\<open>getUTF8\<close> selects from the lead byte, by the branches of its
  \<^verbatim>\<open>if\<close> chain: 1 byte (or an unexpected continuation byte, or an illegal lead byte),
  2 bytes (\<^verbatim>\<open>0xc0-0xdf\<close>), 3 bytes (\<^verbatim>\<open>0xe0-0xef\<close>), 4 bytes (\<^verbatim>\<open>0xf0-0xf7\<close>).\<close>

definition getUTF8_width :: "uint8_t \<Rightarrow> uint32_t" where
  "getUTF8_width byte =
    (if byte + 8 \<le> 0xc7 then 1 else if byte \<le> 0xdf then 2 else if byte \<le> 0xef then 3 else 4)"

text \<open>An ASCII byte that is no line boundary for \<^verbatim>\<open>getLine\<close> under the UTF-8 handler: it
  decodes as one scalar, and that scalar is not zero, line feed, vertical tab, form feed or
  carriage return.\<close>

definition plain_ascii :: "uint8_t \<Rightarrow> bool" where
  "plain_ascii c =
    (c \<le> 0x7f \<and> c \<noteq> 0x00 \<and> c \<noteq> 0x0a \<and> c \<noteq> 0x0b \<and> c \<noteq> 0x0c \<and> c \<noteq> 0x0d)"

text \<open>The values the decoders assemble, named: \<^verbatim>\<open>value\<close> of \<^verbatim>\<open>getUTF8\<close> after its last
  continuation byte in the 2-, 3- and 4-byte forms; a 16-bit code unit from its low and high
  byte; the combination of a surrogate pair; a 32-bit word from its four bytes, lowest
  first.\<close>

definition utf8_value2 :: "uint8_t \<Rightarrow> uint8_t \<Rightarrow> unicode_t" where
  "utf8_value2 b0 b1 = push_bit 6 (ucast b0 AND 0x1f) + (ucast b1 AND 0x3f)"

definition utf8_value3 :: "uint8_t \<Rightarrow> uint8_t \<Rightarrow> uint8_t \<Rightarrow> unicode_t" where
  "utf8_value3 b0 b1 b2 =
     push_bit 6 (push_bit 6 (ucast b0 AND 0x0f) + (ucast b1 AND 0x3f)) + (ucast b2 AND 0x3f)"

definition utf8_value4 :: "uint8_t \<Rightarrow> uint8_t \<Rightarrow> uint8_t \<Rightarrow> uint8_t \<Rightarrow> unicode_t" where
  "utf8_value4 b0 b1 b2 b3 =
     push_bit 6 (push_bit 6 (push_bit 6 (ucast b0 AND 0x07) + (ucast b1 AND 0x3f))
       + (ucast b2 AND 0x3f)) + (ucast b3 AND 0x3f)"

definition utf16_unit :: "uint8_t \<Rightarrow> uint8_t \<Rightarrow> unicode_t" where
  "utf16_unit lo hi = push_bit 8 (ucast hi) + ucast lo"

definition utf16_pair :: "unicode_t \<Rightarrow> unicode_t \<Rightarrow> unicode_t" where
  "utf16_pair value extra = push_bit 10 (value AND 0x3ff) + (extra AND 0x3ff) + 0x10000"

definition utf32_word :: "uint8_t \<Rightarrow> uint8_t \<Rightarrow> uint8_t \<Rightarrow> uint8_t \<Rightarrow> unicode_t" where
  "utf32_word b0 b1 b2 b3 =
     push_bit 8 (push_bit 8 (push_bit 8 (ucast b3) + ucast b2) + ucast b1) + ucast b0"

declare validate_loop.simps [code]
declare getLine_loop.simps [code]

section \<open>Bit-level facts\<close>

lemma lt32_cases: "(i::nat) < 32 \<Longrightarrow>
  i = 31 \<or> i = 30 \<or> i = 29 \<or> i = 28 \<or> i = 27 \<or> i = 26 \<or> i = 25 \<or> i = 24 \<or>
  i = 23 \<or> i = 22 \<or> i = 21 \<or> i = 20 \<or> i = 19 \<or> i = 18 \<or> i = 17 \<or> i = 16 \<or>
  i = 15 \<or> i = 14 \<or> i = 13 \<or> i = 12 \<or> i = 11 \<or> i = 10 \<or> i = 9 \<or> i = 8 \<or>
  i = 7 \<or> i = 6 \<or> i = 5 \<or> i = 4 \<or> i = 3 \<or> i = 2 \<or> i = 1 \<or> i = 0"
  by arith

lemma lt8_cases: "(i::nat) < 8 \<Longrightarrow>
  i = 7 \<or> i = 6 \<or> i = 5 \<or> i = 4 \<or> i = 3 \<or> i = 2 \<or> i = 1 \<or> i = 0"
  by arith

lemma bit32_lt: "bit (v :: 32 word) n \<Longrightarrow> n < 32"
  by (auto dest: bit_imp_le_length)

lemma bit32_beyond: "32 \<le> n \<Longrightarrow> bit (v :: 32 word) n = False"
  by (auto dest: bit_imp_le_length)

text \<open>A test \<^verbatim>\<open>(v & m) == k\<close> against a mask of high bits compares \<open>v\<close> shifted right.\<close>

lemma hi_mask_test:
  fixes v :: "'a::len word"
  assumes m: "m = NOT (mask n)" and k: "k = push_bit n j" and j: "drop_bit n k = j"
  shows "(v AND m = k) \<longleftrightarrow> drop_bit n v = j"
proof -
  have b: "v AND NOT (mask n) = push_bit n (drop_bit n v)"
    by (rule bit_word_eqI) (auto simp add: bit_simps dest: bit_imp_le_length)
  have b': "drop_bit n (v AND NOT (mask n)) = drop_bit n v"
    by (rule bit_word_eqI) (auto simp add: bit_simps dest: bit_imp_le_length)
  show ?thesis
  proof
    assume "v AND m = k"
    then have "drop_bit n (v AND NOT (mask n)) = drop_bit n k" using m by simp
    then show "drop_bit n v = j" unfolding b' j .
  next
    assume "drop_bit n v = j"
    then show "v AND m = k" unfolding m b k by simp
  qed
qed

lemma surrogate_test:
  "((v::32 word) AND 0xfffff800 = 0xd800) \<longleftrightarrow> (0xd800 \<le> v \<and> v \<le> 0xdfff)"
proof -
  have d: "v AND 0xfffff800 = 0xd800 \<longleftrightarrow> drop_bit 11 v = 27"
    by (rule hi_mask_test) (simp_all add: mask_eq_exp_minus_1)
  have e: "drop_bit 11 v = 27 \<longleftrightarrow> unat v div 2048 = 27"
    by (simp add: word_unat_eq_iff unat_drop_bit_eq drop_bit_eq_div[where ?'a = nat])
  have f: "(0xd800 \<le> v \<and> v \<le> 0xdfff) \<longleftrightarrow> unat v div 2048 = 27"
    by (auto simp add: word_le_nat_alt)
  show ?thesis unfolding d e f ..
qed

lemma high_surrogate_test:
  "((v::32 word) AND 0xfffffc00 = 0xd800) \<longleftrightarrow> (0xd800 \<le> v \<and> v \<le> 0xdbff)"
proof -
  have d: "v AND 0xfffffc00 = 0xd800 \<longleftrightarrow> drop_bit 10 v = 54"
    by (rule hi_mask_test) (simp_all add: mask_eq_exp_minus_1)
  have e: "drop_bit 10 v = 54 \<longleftrightarrow> unat v div 1024 = 54"
    by (simp add: word_unat_eq_iff unat_drop_bit_eq drop_bit_eq_div[where ?'a = nat])
  have f: "(0xd800 \<le> v \<and> v \<le> 0xdbff) \<longleftrightarrow> unat v div 1024 = 54"
    by (auto simp add: word_le_nat_alt)
  show ?thesis unfolding d e f ..
qed

lemma low_surrogate_test:
  "((v::32 word) AND 0xfffffc00 = 0xdc00) \<longleftrightarrow> (0xdc00 \<le> v \<and> v \<le> 0xdfff)"
proof -
  have d: "v AND 0xfffffc00 = 0xdc00 \<longleftrightarrow> drop_bit 10 v = 55"
    by (rule hi_mask_test) (simp_all add: mask_eq_exp_minus_1)
  have e: "drop_bit 10 v = 55 \<longleftrightarrow> unat v div 1024 = 55"
    by (simp add: word_unat_eq_iff unat_drop_bit_eq drop_bit_eq_div[where ?'a = nat])
  have f: "(0xdc00 \<le> v \<and> v \<le> 0xdfff) \<longleftrightarrow> unat v div 1024 = 55"
    by (auto simp add: word_le_nat_alt)
  show ?thesis unfolding d e f ..
qed

section \<open>Overlong zero and the Java flag\<close>

text \<open>
  C5. The two bytes \<^verbatim>\<open>C0 80\<close>, decoded by \<^verbatim>\<open>getUTF8\<close> with a size of at least 2: without
  the Java flag the decode fails with the sentinel \<^verbatim>\<open>0x800000C0\<close>; with the flag it
  succeeds with scalar 0 and 2 bytes.
\<close>

theorem getUTF8_C0_80:
  "2 \<le> size' \<Longrightarrow> unat size' \<le> length (0xC0 # 0x80 # rest) \<Longrightarrow>
   getUTF8 (Some (0xC0 # 0x80 # rest)) size' False = (False, 0x800000C0, 1) \<and>
   getUTF8 (Some (0xC0 # 0x80 # rest)) size' True = (True, 0x0, 2)"
proof -
  assume a: "2 \<le> size'"
  then have "1 \<le> size'" by (simp add: word_le_nat_alt)
  with a show ?thesis by (simp add: getUTF8_def getUTF8_fail_def)
qed

theorem getUTF8_C0_80_witness:
  "getUTF8 (Some [0xC0, 0x80]) 2 False = (False, 0x800000C0, 1) \<and>
   getUTF8 (Some [0xC0, 0x80]) 2 True = (True, 0x0, 2)"
  using getUTF8_C0_80 [of 2 "[]"] by simp

section \<open>Surrogates are not encodable\<close>

text \<open>
  C7. For every scalar in the surrogate range \<^verbatim>\<open>0xD800-0xDFFF\<close>, every buffer (null or
  not) and every capacity, \<^verbatim>\<open>setUTF16le\<close> and \<^verbatim>\<open>setUTF16be\<close> return false with
  \<^verbatim>\<open>bytes == 0\<close> and write nothing.
\<close>

theorem setUTF16_rejects_surrogates:
  "0xD800 \<le> v \<Longrightarrow> v \<le> 0xDFFF \<Longrightarrow>
   setUTF16le buf size' v = (False, 0, buf) \<and> setUTF16be buf size' v = (False, 0, buf)"
  by (simp add: setUTF16le_def setUTF16be_def surrogate_test split: option.split)

theorem setUTF16_rejects_surrogates_witness:
  "setUTF16le (Some [0, 0]) 2 0xD800 = (False, 0, Some [0, 0]) \<and>
   setUTF16be (Some [0, 0]) 2 0xD800 = (False, 0, Some [0, 0])"
  using setUTF16_rejects_surrogates [of "0xD800" "Some [0, 0]" 2] by simp

section \<open>Byte-order marks\<close>



section \<open>Surrogate pairs\<close>

text \<open>
  C6. Under UTF-16LE the bytes \<^verbatim>\<open>00 D8 00 DC\<close> (size at least 4) decode to scalar
  \<^verbatim>\<open>0x10000\<close> with 4 bytes consumed; a high surrogate followed by a low surrogate
  combines as \<^verbatim>\<open>((high & 0x3FF) << 10) + (low & 0x3FF) + 0x10000\<close>; and encoding
  \<^verbatim>\<open>0x10000\<close> into a buffer of capacity at least 4 writes exactly \<^verbatim>\<open>00 D8 00 DC\<close>
  over its first four bytes and reports 4 bytes.
\<close>

theorem UTF16le_surrogate_pair:
  "4 \<le> size' \<and> unat size' \<le> length (b0 # b1 # b2 # b3 # rest) \<longrightarrow>
   getUTF16le (Some (0x00 # 0xD8 # 0x00 # 0xDC # rest)) size' = (True, 0x10000, 4) \<and>
   (\<forall>high low. high = push_bit 8 (ucast b1) + ucast b0 \<and> low = push_bit 8 (ucast b3) + ucast b2 \<and>
      0xD800 \<le> high \<and> high \<le> 0xDBFF \<and> 0xDC00 \<le> low \<and> low \<le> 0xDFFF \<longrightarrow>
      getUTF16le (Some (b0 # b1 # b2 # b3 # rest)) size' =
        (True, push_bit 10 (high AND 0x3FF) + (low AND 0x3FF) + 0x10000, 4)) \<and>
   setUTF16le (Some (b0 # b1 # b2 # b3 # rest)) size' 0x10000 =
     (True, 4, Some (0x00 # 0xD8 # 0x00 # 0xDC # rest))"
proof (intro impI, elim conjE)
  assume a: "4 \<le> size'"
  then have b: "2 \<le> size'" by (simp add: word_le_nat_alt)
  have 1: "getUTF16le (Some (0x00 # 0xD8 # 0x00 # 0xDC # rest)) size' = (True, 0x10000, 4)"
    using a b by (simp add: getUTF16le_def)
  have 3: "setUTF16le (Some (b0 # b1 # b2 # b3 # rest)) size' 0x10000 =
     (True, 4, Some (0x00 # 0xD8 # 0x00 # 0xDC # rest))"
    using a b by (simp add: setUTF16le_def)
  have 2: "getUTF16le (Some (b0 # b1 # b2 # b3 # rest)) size' =
        (True, push_bit 10 (high AND 0x3FF) + (low AND 0x3FF) + 0x10000, 4)"
    if "high = push_bit 8 (ucast b1) + ucast b0" "low = push_bit 8 (ucast b3) + ucast b2"
      "0xD800 \<le> high" "high \<le> 0xDBFF" "0xDC00 \<le> low" "low \<le> 0xDFFF" for high low
  proof -
    have h1: "high AND 0xfffffc00 = 0xd800" using that by (simp add: high_surrogate_test)
    have "high \<le> 0xdfff" using that(4) by (simp add: word_le_nat_alt)
    then have h2: "high AND 0xfffff800 = 0xd800" using that(3) by (simp add: surrogate_test)
    have l1: "low AND 0xfffffc00 = 0xdc00" using that by (simp add: low_surrogate_test)
    show ?thesis using a b h1 h2 l1 that(1,2) by (simp add: getUTF16le_def Let_def)
  qed
  show "getUTF16le (Some (0x00 # 0xD8 # 0x00 # 0xDC # rest)) size' = (True, 0x10000, 4) \<and>
   (\<forall>high low. high = push_bit 8 (ucast b1) + ucast b0 \<and> low = push_bit 8 (ucast b3) + ucast b2 \<and>
      0xD800 \<le> high \<and> high \<le> 0xDBFF \<and> 0xDC00 \<le> low \<and> low \<le> 0xDFFF \<longrightarrow>
      getUTF16le (Some (b0 # b1 # b2 # b3 # rest)) size' =
        (True, push_bit 10 (high AND 0x3FF) + (low AND 0x3FF) + 0x10000, 4)) \<and>
   setUTF16le (Some (b0 # b1 # b2 # b3 # rest)) size' 0x10000 =
     (True, 4, Some (0x00 # 0xD8 # 0x00 # 0xDC # rest))"
    using 1 2 3 by blast
qed

theorem UTF16le_surrogate_pair_witness:
  "getUTF16le (Some [0x00, 0xD8, 0x00, 0xDC]) 4 = (True, 0x10000, 4) \<and>
   getUTF16le (Some [0xFF, 0xDB, 0xFF, 0xDF]) 4 = (True, 0x10FFFF, 4) \<and>
   setUTF16le (Some [0xFF, 0xDB, 0xFF, 0xDF]) 4 0x10000 = (True, 4, Some [0x00, 0xD8, 0x00, 0xDC])"
  using UTF16le_surrogate_pair [of 4 "0xFF" "0xDB" "0xFF" "0xDF" "[]"]
  by (simp add: getUTF16le_def setUTF16le_def)

section \<open>Truncated UTF-8 sequences\<close>

text \<open>
  C4, as the code has it. When \<^verbatim>\<open>getUTF8\<close> is given at least one byte but fewer than
  the sequence form of the lead byte needs, it fails with \<^verbatim>\<open>bytes == 1\<close> (the code-unit
  size, not the declared width) and the sentinel \<^verbatim>\<open>0x80000000 | lead\<close>. For a non-null
  buffer \<^verbatim>\<open>bytes == 0\<close> is reported exactly when \<^verbatim>\<open>size == 0\<close>.
\<close>

theorem getUTF8_truncated:
  "(1 \<le> size' \<and> size' < getUTF8_width (b ! 0) \<and> unat size' \<le> length b \<longrightarrow>
     getUTF8 (Some b) size' use_java = (False, ucast (b ! 0) OR 0x80000000, 1)) \<and>
   (snd (snd (getUTF8 (Some b) size' use_java)) = 0 \<longleftrightarrow> size' = 0)"
proof -
  have z: "(\<not> 1 \<le> size') \<longleftrightarrow> size' = 0"
    by (auto simp add: word_le_nat_alt word_unat_eq_iff)
  have A: "getUTF8 (Some b) size' use_java = (False, ucast (b ! 0) OR 0x80000000, 1)"
    if a: "1 \<le> size'" and w: "size' < getUTF8_width (b ! 0)"
  proof -
    consider (one) "b ! 0 + 8 \<le> 0xc7" | (two) "\<not> b ! 0 + 8 \<le> 0xc7" "b ! 0 \<le> 0xdf"
      | (three) "\<not> b ! 0 + 8 \<le> 0xc7" "\<not> b ! 0 \<le> 0xdf" "b ! 0 \<le> 0xef"
      | (four) "\<not> b ! 0 + 8 \<le> 0xc7" "\<not> b ! 0 \<le> 0xdf" "\<not> b ! 0 \<le> 0xef"
      by blast
    then show ?thesis
    proof cases
      case one
      then have "size' < 1" using w by (simp add: getUTF8_width_def)
      then show ?thesis using a by simp
    next
      case two
      then have "size' < 2" using w by (simp add: getUTF8_width_def)
      then have "\<not> 2 \<le> size'" by simp
      then show ?thesis using a two by (simp add: getUTF8_def getUTF8_fail_def Let_def)
    next
      case three
      then have "size' < 3" using w by (simp add: getUTF8_width_def)
      then have "\<not> 3 \<le> size'" by simp
      then show ?thesis using a three by (simp add: getUTF8_def getUTF8_fail_def Let_def)
    next
      case four
      then have "size' < 4" using w by (simp add: getUTF8_width_def)
      then have "\<not> 4 \<le> size'" by simp
      then show ?thesis using a four by (simp add: getUTF8_def getUTF8_fail_def Let_def)
    qed
  qed
  have B: "(snd (snd (getUTF8 (Some b) size' use_java)) = 0 \<longleftrightarrow> size' = 0)"
    by (simp add: getUTF8_def getUTF8_fail_def Let_def z)
  show ?thesis using A B by blast
qed

theorem getUTF8_truncated_witness:
  "(1::uint32_t) \<le> 3 \<and> 3 < getUTF8_width ([0xF0, 0x90, 0x8D] ! 0) \<and>
   getUTF8 (Some [0xF0, 0x90, 0x8D]) 3 True = (False, 0x800000F0, 1) \<and>
   snd (snd (getUTF8 (Some [0xF0, 0x90, 0x8D]) 0 True)) = 0"
  using getUTF8_truncated [of 3 "[0xF0, 0x90, 0x8D]" True]
    getUTF8_truncated [of 0 "[0xF0, 0x90, 0x8D]" True]
  by (simp add: getUTF8_width_def)

text \<open>The claim as the specification states it fails: on the two bytes \<^verbatim>\<open>E2 82\<close> of a
  3-byte form the decoder reports 1 byte, not 3.\<close>

theorem getUTF8_truncated_counterexample:
  "2 < getUTF8_width 0xE2 \<and> getUTF8_width 0xE2 = 3 \<and>
   getUTF8 (Some [0xE2, 0x82]) 2 False = (False, 0x800000E2, 1)"
  by (simp add: getUTF8_width_def getUTF8_def getUTF8_fail_def)

section \<open>Cursor advance of read and write\<close>

lemma getUTF8_bytes_on_failure:
  "fst (getUTF8 buf s j) \<or>
   snd (snd (getUTF8 buf s j)) = (if buf \<noteq> None \<and> 1 \<le> s then 1 else 0)"
  by (cases buf) (simp_all add: getUTF8_def getUTF8_fail_def Let_def)

lemma getUTF16le_bytes_on_failure:
  "fst (getUTF16le buf s) \<or>
   snd (snd (getUTF16le buf s)) = (if buf \<noteq> None \<and> 2 \<le> s then 2 else 0)"
  by (cases buf) (simp_all add: getUTF16le_def Let_def)

lemma getUTF16be_bytes_on_failure:
  "fst (getUTF16be buf s) \<or>
   snd (snd (getUTF16be buf s)) = (if buf \<noteq> None \<and> 2 \<le> s then 2 else 0)"
  by (cases buf) (simp_all add: getUTF16be_def Let_def)

lemma getUTF32le_bytes_on_failure:
  "fst (getUTF32le buf s) \<or>
   snd (snd (getUTF32le buf s)) = (if buf \<noteq> None \<and> 4 \<le> s then 4 else 0)"
  by (cases buf) (simp_all add: getUTF32le_def Let_def)

lemma getUTF32be_bytes_on_failure:
  "fst (getUTF32be buf s) \<or>
   snd (snd (getUTF32be buf s)) = (if buf \<noteq> None \<and> 4 \<le> s then 4 else 0)"
  by (cases buf) (simp_all add: getUTF32be_def Let_def)

lemma getBYTE_bytes_on_failure:
  "fst (getBYTE buf s a) \<or>
   snd (snd (getBYTE buf s a)) = (if buf \<noteq> None \<and> 1 \<le> s then 1 else 0)"
  by (cases buf) (simp_all add: getBYTE_def Let_def)

lemma setUTF8_bytes_on_failure: "fst (setUTF8 buf s u j) \<or> fst (snd (setUTF8 buf s u j)) = 0"
  by (cases buf) (simp_all add: setUTF8_def)

lemma setUTF16le_bytes_on_failure: "fst (setUTF16le buf s u) \<or> fst (snd (setUTF16le buf s u)) = 0"
  by (cases buf) (simp_all add: setUTF16le_def Let_def)

lemma setUTF16be_bytes_on_failure: "fst (setUTF16be buf s u) \<or> fst (snd (setUTF16be buf s u)) = 0"
  by (cases buf) (simp_all add: setUTF16be_def Let_def)

lemma setUTF32le_bytes_on_failure: "fst (setUTF32le buf s u) \<or> fst (snd (setUTF32le buf s u)) = 0"
  by (cases buf) (simp_all add: setUTF32le_def)

lemma setUTF32be_bytes_on_failure: "fst (setUTF32be buf s u) \<or> fst (snd (setUTF32be buf s u)) = 0"
  by (cases buf) (simp_all add: setUTF32be_def)

lemma setBYTE_bytes_on_failure: "fst (setBYTE buf s u a) \<or> fst (snd (setBYTE buf s u a)) = 0"
  by (cases buf) (simp_all add: setBYTE_def)

lemma handler_fields:
  "get CUTF8 = (\<lambda>b s. getUTF8 b s False)" "set' CUTF8 = (\<lambda>b s u. setUTF8 b s u False)"
  "get CJUTF8 = (\<lambda>b s. getUTF8 b s True)" "set' CJUTF8 = (\<lambda>b s u. setUTF8 b s u True)"
  "get CUTF16le = getUTF16le" "set' CUTF16le = setUTF16le"
  "get CUTF16be = getUTF16be" "set' CUTF16be = setUTF16be"
  "get CUTF32le = getUTF32le" "set' CUTF32le = setUTF32le"
  "get CUTF32be = getUTF32be" "set' CUTF32be = setUTF32be"
  "get CBYTE = (\<lambda>b s. getBYTE b s False)" "set' CBYTE = (\<lambda>b s u. setBYTE b s u False)"
  "get CASCII = (\<lambda>b s. getBYTE b s True)" "set' CASCII = (\<lambda>b s u. setBYTE b s u True)"
  "unitSize CUTF8 = 1" "unitSize CJUTF8 = 1" "unitSize CUTF16le = 2" "unitSize CUTF16be = 2"
  "unitSize CUTF32le = 4" "unitSize CUTF32be = 4" "unitSize CBYTE = 1" "unitSize CASCII = 1"
  by (simp_all add: CUTF8_def CJUTF8_def CUTF16le_def CUTF16be_def CUTF32le_def CUTF32be_def
      CBYTE_def CASCII_def)

lemma std_handlers_cases:
  assumes "h \<in> set std_handlers"
  obtains "h = CUTF8" | "h = CJUTF8" | "h = CUTF16le" | "h = CUTF16be"
    | "h = CUTF32le" | "h = CUTF32be" | "h = CBYTE" | "h = CASCII"
  using assms unfolding std_handlers_def by auto

lemma get_bytes_on_failure:
  assumes "h \<in> set std_handlers"
  shows "fst (get h buf s) \<or>
   snd (snd (get h buf s)) = (if buf \<noteq> None \<and> unitSize h \<le> s then unitSize h else 0)"
  using assms
proof (cases rule: std_handlers_cases)
  case 1 show ?thesis unfolding 1 handler_fields by (rule getUTF8_bytes_on_failure)
next
  case 2 show ?thesis unfolding 2 handler_fields by (rule getUTF8_bytes_on_failure)
next
  case 3 show ?thesis unfolding 3 handler_fields by (rule getUTF16le_bytes_on_failure)
next
  case 4 show ?thesis unfolding 4 handler_fields by (rule getUTF16be_bytes_on_failure)
next
  case 5 show ?thesis unfolding 5 handler_fields by (rule getUTF32le_bytes_on_failure)
next
  case 6 show ?thesis unfolding 6 handler_fields by (rule getUTF32be_bytes_on_failure)
next
  case 7 show ?thesis unfolding 7 handler_fields by (rule getBYTE_bytes_on_failure)
next
  case 8 show ?thesis unfolding 8 handler_fields by (rule getBYTE_bytes_on_failure)
qed

lemma set_bytes_on_failure:
  assumes "h \<in> set std_handlers"
  shows "fst (set' h buf s u) \<or> fst (snd (set' h buf s u)) = 0"
  using assms
proof (cases rule: std_handlers_cases)
  case 1 show ?thesis unfolding 1 handler_fields by (rule setUTF8_bytes_on_failure)
next
  case 2 show ?thesis unfolding 2 handler_fields by (rule setUTF8_bytes_on_failure)
next
  case 3 show ?thesis unfolding 3 handler_fields by (rule setUTF16le_bytes_on_failure)
next
  case 4 show ?thesis unfolding 4 handler_fields by (rule setUTF16be_bytes_on_failure)
next
  case 5 show ?thesis unfolding 5 handler_fields by (rule setUTF32le_bytes_on_failure)
next
  case 6 show ?thesis unfolding 6 handler_fields by (rule setUTF32be_bytes_on_failure)
next
  case 7 show ?thesis unfolding 7 handler_fields by (rule setBYTE_bytes_on_failure)
next
  case 8 show ?thesis unfolding 8 handler_fields by (rule setBYTE_bytes_on_failure)
qed

text \<open>The cursor operations return a result wherever the pointer
  \<^verbatim>\<open>&text.buffer[text.offset]\<close> is defined or is not formed: the buffer is not null, or
  the offset is 0, or the offset is past the length.\<close>

lemma buffer_at_defined:
  "buffer text \<noteq> None \<or> offset text = 0 \<Longrightarrow>
   buffer_at text = Inr (map_option (drop (unat (offset text))) (buffer text))"
  by (cases "buffer text") (auto simp add: buffer_at_def)

lemma offset_store_at: "offset (store_at text sub) = offset text"
  by (simp add: store_at_def split: option.split)

lemma IUTF_get_defined:
  assumes "buffer text \<noteq> None \<or> offset text = 0 \<or> length' text < offset text"
  shows "\<exists>success unicode bytes. IUTF_get h text = Inr (success, unicode, bytes)"
proof (cases "offset text \<le> length' text")
  case True
  then have "buffer text \<noteq> None \<or> offset text = 0" using assms by auto
  then show ?thesis using True
    by (cases "get h (map_option (drop (unat (offset text))) (buffer text))
                 (length' text - offset text)")
       (simp add: IUTF_get_def buffer_at_defined)
next
  case False
  then show ?thesis by (auto simp add: IUTF_get_def)
qed

lemma IUTF_set_defined:
  assumes "buffer text \<noteq> None \<or> offset text = 0 \<or> length' text < offset text"
  shows "\<exists>success bytes stored. IUTF_set h text unicode = Inr (success, bytes, stored) \<and>
           offset stored = offset text"
proof (cases "offset text \<le> length' text")
  case True
  then have "buffer text \<noteq> None \<or> offset text = 0" using assms by auto
  then show ?thesis using True
    by (cases "set' h (map_option (drop (unat (offset text))) (buffer text))
                 (length' text - offset text) unicode")
       (simp add: IUTF_set_def buffer_at_defined offset_store_at)
next
  case False
  then show ?thesis by (auto simp add: IUTF_set_def)
qed

lemma read_failure_advance:
  assumes h: "h \<in> set std_handlers"
    and r: "IUTF_read h text = Inr (False, unicode, text')"
  shows "offset text' = offset text +
     (if buffer text \<noteq> None \<and> offset text \<le> length' text \<and>
         unitSize h \<le> length' text - offset text then unitSize h else 0)"
proof (cases "offset text \<le> length' text")
  case False
  then show ?thesis using r by (auto simp add: IUTF_read_def IUTF_get_def)
next
  case True
  show ?thesis
  proof (cases "buffer_at text")
    case (Inl e)
    then show ?thesis using r True by (simp add: IUTF_read_def IUTF_get_def)
  next
    case (Inr p)
    have p: "p \<noteq> None \<longleftrightarrow> buffer text \<noteq> None"
      using Inr by (cases "buffer text") (auto simp add: buffer_at_def split: if_splits)
    obtain ok v n where g: "get h p (length' text - offset text) = (ok, v, n)"
      by (cases "get h p (length' text - offset text)") auto
    from r True Inr g have "ok = False" "text' = text\<lparr>offset := offset text + n\<rparr>"
      by (simp_all add: IUTF_read_def IUTF_get_def)
    moreover have "n = (if p \<noteq> None \<and> unitSize h \<le> length' text - offset text
                         then unitSize h else 0)"
      using get_bytes_on_failure [OF h, of p "length' text - offset text"] g \<open>ok = False\<close>
      by simp
    ultimately show ?thesis using True p by simp
  qed
qed

lemma write_failure_advance:
  assumes h: "h \<in> set std_handlers"
    and w: "IUTF_write h text unicode = Inr (False, text')"
  shows "offset text' = offset text"
proof (cases "offset text \<le> length' text")
  case False
  then show ?thesis using w by (auto simp add: IUTF_write_def IUTF_set_def)
next
  case True
  show ?thesis
  proof (cases "buffer_at text")
    case (Inl e)
    then show ?thesis using w True by (simp add: IUTF_write_def IUTF_set_def)
  next
    case (Inr p)
    obtain ok n sub where g: "set' h p (length' text - offset text) unicode = (ok, n, sub)"
      by (cases "set' h p (length' text - offset text) unicode") auto
    from w True Inr g have "ok = False"
      "text' = (store_at text sub)\<lparr>offset := offset (store_at text sub) + n\<rparr>"
      by (simp_all add: IUTF_write_def IUTF_set_def)
    moreover have "n = 0"
      using set_bytes_on_failure [OF h, of p "length' text - offset text" unicode] g
        \<open>ok = False\<close> by simp
    ultimately show ?thesis by (simp add: offset_store_at)
  qed
qed

text \<open>
  C3, as the code has it. On a cursor whose buffer is not null, or whose offset is 0 or past
  its length, \<^verbatim>\<open>IUTF::read\<close> advances the offset by the \<^verbatim>\<open>bytes\<close> value its decoder
  reports and \<^verbatim>\<open>IUTF::write\<close> by the \<^verbatim>\<open>bytes\<close> value its encoder reports, whether the
  operation succeeds or not, and this holds for every handler. For the handlers of
  \<open>std_handlers\<close> a failed write advances by zero; a failed read advances by the handler's
  code-unit size, and by zero only when the buffer is null, the offset is past the length,
  or fewer bytes than one code unit remain.
\<close>

theorem read_write_advance:
  "(buffer text \<noteq> None \<or> offset text = 0 \<or> length' text < offset text) \<longrightarrow>
     (\<exists>success unicode bytes.
        IUTF_get h text = Inr (success, unicode, bytes) \<and>
        IUTF_read h text = Inr (success, unicode, text\<lparr>offset := offset text + bytes\<rparr>)) \<and>
     (\<exists>success bytes stored.
        IUTF_set h text unicode = Inr (success, bytes, stored) \<and> offset stored = offset text \<and>
        IUTF_write h text unicode = Inr (success, stored\<lparr>offset := offset text + bytes\<rparr>)) \<and>
     (h \<in> set std_handlers \<longrightarrow>
        (\<forall>scalar text'. IUTF_read h text = Inr (False, scalar, text') \<longrightarrow>
           offset text' = offset text +
             (if buffer text \<noteq> None \<and> offset text \<le> length' text \<and>
                 unitSize h \<le> length' text - offset text then unitSize h else 0)) \<and>
        (\<forall>text'. IUTF_write h text unicode = Inr (False, text') \<longrightarrow>
           offset text' = offset text))"
proof (intro impI conjI allI)
  assume d: "buffer text \<noteq> None \<or> offset text = 0 \<or> length' text < offset text"
  from IUTF_get_defined [OF d, of h]
  show "\<exists>success unicode bytes.
        IUTF_get h text = Inr (success, unicode, bytes) \<and>
        IUTF_read h text = Inr (success, unicode, text\<lparr>offset := offset text + bytes\<rparr>)"
    by (auto simp add: IUTF_read_def)
  from IUTF_set_defined [OF d, of h unicode]
  show "\<exists>success bytes stored.
        IUTF_set h text unicode = Inr (success, bytes, stored) \<and> offset stored = offset text \<and>
        IUTF_write h text unicode = Inr (success, stored\<lparr>offset := offset text + bytes\<rparr>)"
    by (auto simp add: IUTF_write_def)
next
  fix scalar text'
  assume "h \<in> set std_handlers" "IUTF_read h text = Inr (False, scalar, text')"
  then show "offset text' = offset text +
             (if buffer text \<noteq> None \<and> offset text \<le> length' text \<and>
                 unitSize h \<le> length' text - offset text then unitSize h else 0)"
    by (rule read_failure_advance)
next
  fix text'
  assume "h \<in> set std_handlers" "IUTF_write h text unicode = Inr (False, text')"
  then show "offset text' = offset text" by (rule write_failure_advance)
qed

theorem read_write_advance_witness:
  "CUTF16le \<in> set std_handlers \<and>
   buffer \<lparr>length' = 5, offset = 1, buffer = Some [0x41, 0x00, 0xDC, 0x41, 0x00]\<rparr> \<noteq> None \<and>
   IUTF_read CUTF16le \<lparr>length' = 5, offset = 1, buffer = Some [0x41, 0x00, 0xDC, 0x41, 0x00]\<rparr>
     = Inr (False, 0x80000000,
            \<lparr>length' = 5, offset = 3, buffer = Some [0x41, 0x00, 0xDC, 0x41, 0x00]\<rparr>) \<and>
   IUTF_write CUTF16le \<lparr>length' = 5, offset = 1, buffer = Some [0x41, 0x00, 0xDC, 0x41, 0x00]\<rparr>
       0xD800
     = Inr (False, \<lparr>length' = 5, offset = 1, buffer = Some [0x41, 0x00, 0xDC, 0x41, 0x00]\<rparr>)"
  using read_write_advance [of
      "\<lparr>length' = 5, offset = 1, buffer = Some [0x41, 0x00, 0xDC, 0x41, 0x00]\<rparr>" CUTF16le "0xD800"]
  by (simp add: std_handlers_def IUTF_read_def IUTF_write_def IUTF_get_def IUTF_set_def
      buffer_at_def store_at_def handler_fields getUTF16le_def setUTF16le_def)

text \<open>The claim as the specification states it fails: a read of the lone continuation byte
  \<^verbatim>\<open>80\<close> by the UTF-8 handler fails and advances the offset from 0 to 1.\<close>

theorem read_advances_on_failure_counterexample:
  "IUTF_read CUTF8 \<lparr>length' = 1, offset = 0, buffer = Some [0x80]\<rparr> =
     Inr (False, 0x80000080, \<lparr>length' = 1, offset = 1, buffer = Some [0x80]\<rparr>)"
  by code_simp

section \<open>Whole-buffer validation\<close>

text \<open>The guard of \<^verbatim>\<open>IUTF::validate\<close> returns false whenever \<^verbatim>\<open>offset < length\<close>, so the
  loop below it never runs: the result is decided by the guard alone.\<close>

lemma validate_guard:
  "IUTF_validate h text = Some (Inr (buffer text \<noteq> None \<and> length' text \<le> offset text))"
  unfolding IUTF_validate_def
  by (subst validate_loop.simps) (auto simp add: not_less)

text \<open>
  C2. The claim: \<^verbatim>\<open>validate\<close> is true exactly when decoding from the offset up to the
  length succeeds at every step. The code at the one byte \<^verbatim>\<open>41\<close> read by the UTF-8
  handler: the read succeeds and consumes the byte, the scanning loop of \<^verbatim>\<open>validate\<close>
  on its own would return true, and \<^verbatim>\<open>validate\<close> returns false.
\<close>

theorem validate_rejects_decodable_text:
  "IUTF_validate CUTF8 \<lparr>length' = 1, offset = 0, buffer = Some [0x41]\<rparr> = Some (Inr False) \<and>
   validate_loop CUTF8 \<lparr>length' = 1, offset = 0, buffer = Some [0x41]\<rparr> = Some (Inr True) \<and>
   IUTF_read CUTF8 \<lparr>length' = 1, offset = 0, buffer = Some [0x41]\<rparr> =
     Inr (True, 0x41, \<lparr>length' = 1, offset = 1, buffer = Some [0x41]\<rparr>)"
  by code_simp

section \<open>Successful decodes yield runes\<close>

lemma sint_small: "(u :: 32 word) \<le> 0x10FFFF \<Longrightarrow> 0 \<le> sint u"
proof -
  assume "u \<le> 0x10FFFF"
  then have "uint u \<le> 0x10FFFF" by (simp add: word_le_def)
  then have hi: "uint u < 2 ^ 31" by simp
  have "- (2 ^ 31) \<le> (0::int)" by simp
  also have "0 \<le> uint u" by simp
  finally have lo: "- (2 ^ 31) \<le> uint u" .
  have "signed_take_bit 31 (uint u) = uint u"
    using lo hi by (rule signed_take_bit_int_eq_self)
  then show ?thesis by (simp add: sint_uint)
qed

lemma unat_and_le: "unat ((x :: 32 word) AND m) \<le> unat m"
  by (metis word_le_nat_alt word_bw_comms(1) word_and_le2)

lemma unat_ucast8: "unat (ucast (b :: 8 word) :: 32 word) = unat b"
proof -
  have "unat b < 2 ^ 32" using unsigned_less [of b, where ?'a = nat] by simp
  then show ?thesis by (simp add: unsigned_ucast_eq take_bit_nat_eq_self)
qed

lemma unat_byte_le: "unat (b :: 8 word) \<le> 255"
  using unsigned_less [of b, where ?'a = nat] by simp

lemma unat_push_bit_le: "unat (push_bit k (a :: 32 word)) \<le> unat a * 2 ^ k"
proof -
  have "unat (push_bit k a) = take_bit 32 (push_bit k (unat a))"
    by (simp add: unsigned_push_bit_eq)
  also have "\<dots> \<le> push_bit k (unat a)" by (rule take_bit_nat_less_eq_self)
  finally show ?thesis by (simp add: push_bit_eq_mult)
qed

lemma unat_join_le:
  "unat a \<le> A \<Longrightarrow> unat b \<le> B \<Longrightarrow> unat (push_bit k a + b :: 32 word) \<le> A * 2 ^ k + B"
proof -
  assume a: "unat a \<le> A" and b: "unat b \<le> B"
  have "unat (push_bit k a + b) \<le> unat (push_bit k a) + unat b"
    by (simp add: unat_word_ariths)
  also have "\<dots> \<le> unat a * 2 ^ k + unat b" using unat_push_bit_le [of k a] by simp
  also have "\<dots> \<le> A * 2 ^ k + B" using a b by (simp add: add_mono)
  finally show ?thesis .
qed

lemma is_rune_iff: "is_rune u \<longleftrightarrow> u \<le> 0x10FFFF \<and> u AND 0xfffff800 \<noteq> 0xd800"
  using sint_small [of u]
  by (auto simp add: is_rune_def surrogate_test word_le_def)

lemma is_rune_below_surrogates: "unat u < 0xD800 \<Longrightarrow> is_rune u"
  by (simp add: is_rune_iff surrogate_test word_le_nat_alt)

lemma is_rune_supplementary: "0x10000 \<le> unat u \<Longrightarrow> unat u \<le> 0x10FFFF \<Longrightarrow> is_rune u"
  by (simp add: is_rune_iff surrogate_test word_le_nat_alt)

lemma is_rune_16: "unat u \<le> 0xFFFF \<Longrightarrow> u AND 0xfffff800 \<noteq> 0xd800 \<Longrightarrow> is_rune u"
  by (simp add: is_rune_iff word_le_nat_alt)

lemma utf8_1_rune: "b0 \<le> 0x7f \<Longrightarrow> is_rune (ucast (b0 :: 8 word))"
  by (rule is_rune_below_surrogates) (simp add: unat_ucast8 word_le_nat_alt)

lemma utf8_2_rune: "is_rune (push_bit 6 (ucast (b0 :: 8 word) AND 0x1f) + (ucast (b1 :: 8 word) AND 0x3f) :: 32 word)"
proof -
  have "unat (push_bit 6 (ucast b0 AND 0x1f) + (ucast b1 AND 0x3f) :: 32 word) \<le> 31 * 2 ^ 6 + 63"
    by (rule unat_join_le) (use unat_and_le [of _ "0x1f"] unat_and_le [of _ "0x3f"] in simp_all)
  then show ?thesis by (intro is_rune_below_surrogates) simp
qed

lemma utf8_3_bound:
  "unat (push_bit 6 (push_bit 6 (ucast (b0 :: 8 word) AND 0x0f) + (ucast (b1 :: 8 word) AND 0x3f))
     + (ucast (b2 :: 8 word) AND 0x3f) :: 32 word) \<le> 0xFFFF"
proof -
  have "unat (push_bit 6 (ucast b0 AND 0x0f) + (ucast b1 AND 0x3f) :: 32 word) \<le> 15 * 2 ^ 6 + 63"
    by (rule unat_join_le) (use unat_and_le [of _ "0x0f"] unat_and_le [of _ "0x3f"] in simp_all)
  then have "unat (push_bit 6 (push_bit 6 (ucast b0 AND 0x0f) + (ucast b1 AND 0x3f))
     + (ucast b2 AND 0x3f) :: 32 word) \<le> (15 * 2 ^ 6 + 63) * 2 ^ 6 + 63"
    by (rule unat_join_le) (use unat_and_le [of _ "0x3f"] in simp_all)
  then show ?thesis by simp
qed

lemma getUTF8_none: "getUTF8 None s j = (False, 0, 0)"
  by (simp add: getUTF8_def)

lemma getUTF8_empty: "\<not> 1 \<le> s \<Longrightarrow> getUTF8 (Some b) s j = (False, 0, 0)"
  by (simp add: getUTF8_def)

lemma getUTF8_form1:
  "1 \<le> s \<Longrightarrow> b ! 0 + 8 \<le> 0xc7 \<Longrightarrow>
   getUTF8 (Some b) s j =
     (if b ! 0 \<le> 0x7f then (True, ucast (b ! 0), 1) else getUTF8_fail (ucast (b ! 0)))"
  by (simp add: getUTF8_def Let_def)

lemma getUTF8_form2:
  "1 \<le> s \<Longrightarrow> \<not> b ! 0 + 8 \<le> 0xc7 \<Longrightarrow> b ! 0 \<le> 0xdf \<Longrightarrow>
   getUTF8 (Some b) s j =
     (if 2 \<le> s \<and> b ! 1 AND 0xc0 = 0x80 \<and>
         (utf8_value2 (b ! 0) (b ! 1) \<ge> 0x80 \<or> (j \<and> utf8_value2 (b ! 0) (b ! 1) = 0))
      then (True, utf8_value2 (b ! 0) (b ! 1), 2) else getUTF8_fail (ucast (b ! 0)))"
  by (simp add: getUTF8_def Let_def utf8_value2_def)

lemma getUTF8_form3:
  "1 \<le> s \<Longrightarrow> \<not> b ! 0 + 8 \<le> 0xc7 \<Longrightarrow> \<not> b ! 0 \<le> 0xdf \<Longrightarrow> b ! 0 \<le> 0xef \<Longrightarrow>
   getUTF8 (Some b) s j =
     (if 3 \<le> s \<and> b ! 1 AND 0xc0 = 0x80 \<and> b ! 2 AND 0xc0 = 0x80 \<and>
         utf8_value3 (b ! 0) (b ! 1) (b ! 2) \<ge> 0x800 \<and>
         utf8_value3 (b ! 0) (b ! 1) (b ! 2) AND 0xfffff800 \<noteq> 0xd800
      then (True, utf8_value3 (b ! 0) (b ! 1) (b ! 2), 3) else getUTF8_fail (ucast (b ! 0)))"
  by (simp add: getUTF8_def Let_def utf8_value3_def)

lemma getUTF8_form4:
  "1 \<le> s \<Longrightarrow> \<not> b ! 0 + 8 \<le> 0xc7 \<Longrightarrow> \<not> b ! 0 \<le> 0xdf \<Longrightarrow> \<not> b ! 0 \<le> 0xef \<Longrightarrow>
   getUTF8 (Some b) s j =
     (if 4 \<le> s \<and> b ! 1 AND 0xc0 = 0x80 \<and> b ! 2 AND 0xc0 = 0x80 \<and> b ! 3 AND 0xc0 = 0x80 \<and>
         utf8_value4 (b ! 0) (b ! 1) (b ! 2) (b ! 3) \<ge> 0x10000 \<and>
         utf8_value4 (b ! 0) (b ! 1) (b ! 2) (b ! 3) \<le> 0x10ffff
      then (True, utf8_value4 (b ! 0) (b ! 1) (b ! 2) (b ! 3), 4) else getUTF8_fail (ucast (b ! 0)))"
  by (simp add: getUTF8_def Let_def utf8_value4_def)

lemma getUTF16le_form:
  "2 \<le> s \<Longrightarrow>
   getUTF16le (Some b) s =
     (if utf16_unit (b ! 0) (b ! 1) AND 0xfffff800 \<noteq> 0xd800
      then (True, utf16_unit (b ! 0) (b ! 1), 2)
      else if 4 \<le> s \<and> utf16_unit (b ! 0) (b ! 1) AND 0xfffffc00 = 0xd800 \<and>
              utf16_unit (b ! 2) (b ! 3) AND 0xfffffc00 = 0xdc00
      then (True, utf16_pair (utf16_unit (b ! 0) (b ! 1)) (utf16_unit (b ! 2) (b ! 3)), 4)
      else (False, 0x80000000, 2))"
  by (simp add: getUTF16le_def Let_def utf16_unit_def utf16_pair_def)

lemma getUTF16be_form:
  "2 \<le> s \<Longrightarrow>
   getUTF16be (Some b) s =
     (if utf16_unit (b ! 1) (b ! 0) AND 0xfffff800 \<noteq> 0xd800
      then (True, utf16_unit (b ! 1) (b ! 0), 2)
      else if 4 \<le> s \<and> utf16_unit (b ! 1) (b ! 0) AND 0xfffffc00 = 0xd800 \<and>
              utf16_unit (b ! 3) (b ! 2) AND 0xfffffc00 = 0xdc00
      then (True, utf16_pair (utf16_unit (b ! 1) (b ! 0)) (utf16_unit (b ! 3) (b ! 2)), 4)
      else (False, 0x80000000, 2))"
  by (simp add: getUTF16be_def Let_def utf16_unit_def utf16_pair_def)

lemma getUTF32le_form:
  "4 \<le> s \<Longrightarrow>
   getUTF32le (Some b) s =
     (if utf32_word (b ! 0) (b ! 1) (b ! 2) (b ! 3) \<le> 0x10ffff \<and>
         utf32_word (b ! 0) (b ! 1) (b ! 2) (b ! 3) AND 0xfffff800 \<noteq> 0xd800
      then (True, utf32_word (b ! 0) (b ! 1) (b ! 2) (b ! 3), 4)
      else (False, 0x80000000, 4))"
  by (simp add: getUTF32le_def Let_def utf32_word_def)

lemma getUTF32be_form:
  "4 \<le> s \<Longrightarrow>
   getUTF32be (Some b) s =
     (if utf32_word (b ! 3) (b ! 2) (b ! 1) (b ! 0) \<le> 0x10ffff \<and>
         utf32_word (b ! 3) (b ! 2) (b ! 1) (b ! 0) AND 0xfffff800 \<noteq> 0xd800
      then (True, utf32_word (b ! 3) (b ! 2) (b ! 1) (b ! 0), 4)
      else (False, 0x80000000, 4))"
  by (simp add: getUTF32be_def Let_def utf32_word_def)

lemma utf8_value2_rune: "is_rune (utf8_value2 b0 b1)"
  unfolding utf8_value2_def by (rule utf8_2_rune)

lemma utf8_value3_rune:
  "utf8_value3 b0 b1 b2 AND 0xfffff800 \<noteq> 0xd800 \<Longrightarrow> is_rune (utf8_value3 b0 b1 b2)"
  unfolding utf8_value3_def by (rule is_rune_16 [OF utf8_3_bound])

lemma is_rune_supplementary_word: "0x10000 \<le> u \<Longrightarrow> u \<le> 0x10FFFF \<Longrightarrow> is_rune u"
  by (simp add: is_rune_iff surrogate_test word_le_nat_alt)

lemma utf16_unit_rune:
  "utf16_unit lo hi AND 0xfffff800 \<noteq> 0xd800 \<Longrightarrow> is_rune (utf16_unit lo hi)"
proof (rule is_rune_16)
  have "unat (push_bit 8 (ucast hi) + ucast lo :: 32 word) \<le> 255 * 2 ^ 8 + 255"
    by (rule unat_join_le) (simp_all add: unat_ucast8 unat_byte_le)
  then show "unat (utf16_unit lo hi) \<le> 0xFFFF" by (simp add: utf16_unit_def)
qed

lemma utf16_pair_rune: "is_rune (utf16_pair value extra)"
proof -
  let ?x = "push_bit 10 (value AND 0x3ff) + (extra AND 0x3ff) :: 32 word"
  have x: "unat ?x \<le> 1023 * 2 ^ 10 + 1023"
    by (rule unat_join_le) (use unat_and_le [of _ "0x3ff"] in simp_all)
  then have "unat ?x + unat (0x10000 :: 32 word) < 2 ^ LENGTH(32)" by simp
  then have "unat (?x + 0x10000) = unat ?x + unat (0x10000 :: 32 word)"
    by (simp only: unat_add_lem)
  then have "unat (utf16_pair value extra) = unat ?x + 65536" by (simp add: utf16_pair_def)
  then show ?thesis using x by (intro is_rune_supplementary) simp_all
qed

lemma rune_if:
  assumes "c \<Longrightarrow> is_rune v"
    and "\<not> c \<Longrightarrow> fst e \<Longrightarrow> is_rune (fst (snd e))"
    and "fst (if c then (True, v, n) else e)"
  shows "is_rune (fst (snd (if c then (True, v, n) else e)))"
  using assms by (cases c) simp_all

lemma getUTF8_rune: "fst (getUTF8 buf s j) \<Longrightarrow> is_rune (fst (snd (getUTF8 buf s j)))"
proof (cases buf)
  case None
  then show "fst (getUTF8 buf s j) \<Longrightarrow> ?thesis" by (simp add: getUTF8_none)
next
  case (Some b)
  assume ok: "fst (getUTF8 buf s j)"
  have s: "1 \<le> s" using ok Some by (cases "1 \<le> s") (simp_all add: getUTF8_empty)
  consider (one) "b ! 0 + 8 \<le> 0xc7" | (two) "\<not> b ! 0 + 8 \<le> 0xc7" "b ! 0 \<le> 0xdf"
    | (three) "\<not> b ! 0 + 8 \<le> 0xc7" "\<not> b ! 0 \<le> 0xdf" "b ! 0 \<le> 0xef"
    | (four) "\<not> b ! 0 + 8 \<le> 0xc7" "\<not> b ! 0 \<le> 0xdf" "\<not> b ! 0 \<le> 0xef"
    by blast
  then show ?thesis
  proof cases
    case one
    from ok show ?thesis unfolding Some getUTF8_form1 [OF s one]
      by (intro rune_if) (simp_all add: getUTF8_fail_def utf8_1_rune)
  next
    case two
    from ok show ?thesis unfolding Some getUTF8_form2 [OF s two]
      by (intro rune_if) (simp_all add: getUTF8_fail_def utf8_value2_rune)
  next
    case three
    from ok show ?thesis unfolding Some getUTF8_form3 [OF s three]
      by (intro rune_if) (simp_all add: getUTF8_fail_def utf8_value3_rune)
  next
    case four
    from ok show ?thesis unfolding Some getUTF8_form4 [OF s four]
      by (intro rune_if) (simp_all add: getUTF8_fail_def is_rune_supplementary_word)
  qed
qed

lemma getUTF16le_rune: "fst (getUTF16le buf s) \<Longrightarrow> is_rune (fst (snd (getUTF16le buf s)))"
proof (cases buf)
  case None
  then show "fst (getUTF16le buf s) \<Longrightarrow> ?thesis" by (simp add: getUTF16le_def)
next
  case (Some b)
  assume ok: "fst (getUTF16le buf s)"
  have s: "2 \<le> s" using ok Some by (cases "2 \<le> s") (simp_all add: getUTF16le_def)
  from ok show ?thesis unfolding Some getUTF16le_form [OF s]
    by (intro rune_if) (simp_all add: utf16_unit_rune utf16_pair_rune)
qed

lemma getUTF16be_rune: "fst (getUTF16be buf s) \<Longrightarrow> is_rune (fst (snd (getUTF16be buf s)))"
proof (cases buf)
  case None
  then show "fst (getUTF16be buf s) \<Longrightarrow> ?thesis" by (simp add: getUTF16be_def)
next
  case (Some b)
  assume ok: "fst (getUTF16be buf s)"
  have s: "2 \<le> s" using ok Some by (cases "2 \<le> s") (simp_all add: getUTF16be_def)
  from ok show ?thesis unfolding Some getUTF16be_form [OF s]
    by (intro rune_if) (simp_all add: utf16_unit_rune utf16_pair_rune)
qed

lemma getUTF32le_rune: "fst (getUTF32le buf s) \<Longrightarrow> is_rune (fst (snd (getUTF32le buf s)))"
proof (cases buf)
  case None
  then show "fst (getUTF32le buf s) \<Longrightarrow> ?thesis" by (simp add: getUTF32le_def)
next
  case (Some b)
  assume ok: "fst (getUTF32le buf s)"
  have s: "4 \<le> s" using ok Some by (cases "4 \<le> s") (simp_all add: getUTF32le_def)
  from ok show ?thesis unfolding Some getUTF32le_form [OF s]
    by (intro rune_if) (simp_all add: is_rune_iff)
qed

lemma getUTF32be_rune: "fst (getUTF32be buf s) \<Longrightarrow> is_rune (fst (snd (getUTF32be buf s)))"
proof (cases buf)
  case None
  then show "fst (getUTF32be buf s) \<Longrightarrow> ?thesis" by (simp add: getUTF32be_def)
next
  case (Some b)
  assume ok: "fst (getUTF32be buf s)"
  have s: "4 \<le> s" using ok Some by (cases "4 \<le> s") (simp_all add: getUTF32be_def)
  from ok show ?thesis unfolding Some getUTF32be_form [OF s]
    by (intro rune_if) (simp_all add: is_rune_iff)
qed

text \<open>
  C10. For every buffer (null or not), size and flag value: whenever \<^verbatim>\<open>getUTF8\<close>,
  \<^verbatim>\<open>getUTF16le\<close>, \<^verbatim>\<open>getUTF16be\<close>, \<^verbatim>\<open>getUTF32le\<close> or \<^verbatim>\<open>getUTF32be\<close> returns true,
  the scalar it returns is a rune: not negative, at most \<^verbatim>\<open>0x10FFFF\<close>, and not a surrogate.
\<close>

theorem decode_success_is_rune:
  "(fst (getUTF8 buf size' use_java) \<longrightarrow> is_rune (fst (snd (getUTF8 buf size' use_java)))) \<and>
   (fst (getUTF16le buf size') \<longrightarrow> is_rune (fst (snd (getUTF16le buf size')))) \<and>
   (fst (getUTF16be buf size') \<longrightarrow> is_rune (fst (snd (getUTF16be buf size')))) \<and>
   (fst (getUTF32le buf size') \<longrightarrow> is_rune (fst (snd (getUTF32le buf size')))) \<and>
   (fst (getUTF32be buf size') \<longrightarrow> is_rune (fst (snd (getUTF32be buf size'))))"
  using getUTF8_rune getUTF16le_rune getUTF16be_rune getUTF32le_rune getUTF32be_rune
  by blast

theorem decode_success_is_rune_witness:
  "fst (getUTF8 (Some [0x41, 0x00, 0x00, 0x00]) 4 True) \<and>
   is_rune (fst (snd (getUTF8 (Some [0x41, 0x00, 0x00, 0x00]) 4 True))) \<and>
   fst (getUTF16le (Some [0x41, 0x00, 0x00, 0x00]) 4) \<and>
   is_rune (fst (snd (getUTF16le (Some [0x41, 0x00, 0x00, 0x00]) 4))) \<and>
   fst (getUTF16be (Some [0x41, 0x00, 0x00, 0x00]) 4) \<and>
   is_rune (fst (snd (getUTF16be (Some [0x41, 0x00, 0x00, 0x00]) 4))) \<and>
   fst (getUTF32le (Some [0x41, 0x00, 0x00, 0x00]) 4) \<and>
   is_rune (fst (snd (getUTF32le (Some [0x41, 0x00, 0x00, 0x00]) 4))) \<and>
   fst (getUTF32be (Some [0x00, 0x00, 0x00, 0x41]) 4) \<and>
   is_rune (fst (snd (getUTF32be (Some [0x00, 0x00, 0x00, 0x41]) 4)))"
  using decode_success_is_rune [of "Some [0x41, 0x00, 0x00, 0x00]" 4 True]
    decode_success_is_rune [of "Some [0x00, 0x00, 0x00, 0x41]" 4 True]
  by (simp add: getUTF8_def getUTF16le_def getUTF16be_def getUTF32le_def getUTF32be_def)

section \<open>Round trip\<close>

lemma lt_pow_bits: "(u::32 word) < 2 ^ k \<Longrightarrow> k \<le> n \<Longrightarrow> bit u n = False"
proof -
  assume a: "u < 2 ^ k" and b: "k \<le> n"
  have "u AND mask k = u" using a by (rule less_mask_eq)
  then have "bit u n = bit (u AND mask k) n" by simp
  then show ?thesis using b by (simp add: bit_simps)
qed

lemma rune_lt: "(u :: 32 word) \<le> 0x10FFFF \<Longrightarrow> u < 2 ^ 21"
  by (simp add: word_le_nat_alt word_less_nat_alt)

lemma sdb_nonneg: "(u :: 32 word) < 2 ^ 31 \<Longrightarrow> signed_drop_bit n u = drop_bit n u"
proof -
  assume "u < 2 ^ 31"
  then have "\<not> bit u 31" using lt_pow_bits [of u 31 31] by simp
  then show ?thesis
    by (intro bit_word_eqI) (auto simp add: bit_simps dest: bit32_lt)
qed

lemma byte_of:
  "k \<le> 24 \<Longrightarrow> (ucast (ucast (signed_drop_bit k (x :: 32 word)) :: 8 word) :: 32 word)
     = take_bit 8 (drop_bit k x)"
  by (intro bit_word_eqI) (auto simp add: bit_simps)

lemma byte_of0: "(ucast (ucast (x :: 32 word) :: 8 word) :: 32 word) = take_bit 8 x"
  by (intro bit_word_eqI) (auto simp add: bit_simps)

lemma join_bits:
  "push_bit m (drop_bit (k + m) x) + take_bit m (drop_bit k x) = drop_bit k (x :: 32 word)"
  using bits_ident [of m "drop_bit k x"] by (simp add: add.commute)

lemma cont_tag: "((ucast (x :: 32 word) AND 0x3f) OR 0x80 :: 8 word) AND 0xc0 = 0x80"
  apply (rule bit_word_eqI)
  subgoal for n using lt8_cases [of n] by (auto simp add: bit_simps)
  done

lemma cont_payload:
  "ucast ((ucast (x :: 32 word) AND 0x3f) OR 0x80 :: 8 word) AND (0x3f :: 32 word) = take_bit 6 x"
  apply (rule bit_word_eqI)
  subgoal for n using lt32_cases [of n] by (auto simp add: bit_simps)
  done

lemma lead2_payload:
  "ucast (ucast (y :: 32 word) OR 0xc0 :: 8 word) AND (0x1f :: 32 word) = take_bit 5 y"
  apply (rule bit_word_eqI)
  subgoal for n using lt32_cases [of n] by (auto simp add: bit_simps)
  done

lemma lead3_payload:
  "ucast (ucast (y :: 32 word) OR 0xe0 :: 8 word) AND (0x0f :: 32 word) = take_bit 4 y"
  apply (rule bit_word_eqI)
  subgoal for n using lt32_cases [of n] by (auto simp add: bit_simps)
  done

lemma lead4_payload:
  "ucast (ucast (y :: 32 word) OR 0xf0 :: 8 word) AND (0x07 :: 32 word) = take_bit 3 y"
  apply (rule bit_word_eqI)
  subgoal for n using lt32_cases [of n] by (auto simp add: bit_simps)
  done

lemma lead2_tag: "(y :: 32 word) < 2 ^ 5 \<Longrightarrow> (ucast y OR 0xc0 :: 8 word) AND 0xe0 = 0xc0"
  apply (rule bit_word_eqI)
  subgoal for n using lt8_cases [of n] lt_pow_bits [of y 5] by (auto simp add: bit_simps)
  done

lemma lead3_tag: "(y :: 32 word) < 2 ^ 4 \<Longrightarrow> (ucast y OR 0xe0 :: 8 word) AND 0xf0 = 0xe0"
  apply (rule bit_word_eqI)
  subgoal for n using lt8_cases [of n] lt_pow_bits [of y 4] by (auto simp add: bit_simps)
  done

lemma lead4_tag: "(y :: 32 word) < 2 ^ 3 \<Longrightarrow> (ucast y OR 0xf0 :: 8 word) AND 0xf8 = 0xf0"
  apply (rule bit_word_eqI)
  subgoal for n using lt8_cases [of n] lt_pow_bits [of y 3] by (auto simp add: bit_simps)
  done

lemma lead_not_single: "0xc0 \<le> (l :: 8 word) \<Longrightarrow> l \<le> 0xf7 \<Longrightarrow> \<not> l + 8 \<le> 0xc7"
proof -
  assume a: "0xc0 \<le> l" and b: "l \<le> 0xf7"
  have "unat l + unat (8 :: 8 word) < 2 ^ LENGTH(8)" using b by (simp add: word_le_nat_alt)
  then have "unat (l + 8) = unat l + unat (8 :: 8 word)" by (simp only: unat_add_lem)
  then show ?thesis using a by (simp add: word_le_nat_alt)
qed

lemma lead2_range:
  assumes "(l :: 8 word) AND 0xe0 = 0xc0"
  shows "\<not> l + 8 \<le> 0xc7" and "l \<le> 0xdf"
proof -
  have "l AND 0xe0 = 0xc0 \<longleftrightarrow> drop_bit 5 l = 6"
    by (rule hi_mask_test) (simp_all add: mask_eq_exp_minus_1)
  then have "unat l div 32 = 6" using assms
    by (simp add: word_unat_eq_iff unat_drop_bit_eq drop_bit_eq_div[where ?'a = nat])
  then have r: "0xc0 \<le> l \<and> l \<le> 0xdf" by (simp add: word_le_nat_alt) arith
  then show "l \<le> 0xdf" by simp
  from r have "l \<le> 0xf7" by (simp add: word_le_nat_alt)
  with r show "\<not> l + 8 \<le> 0xc7" by (simp add: lead_not_single)
qed

lemma lead3_range:
  assumes "(l :: 8 word) AND 0xf0 = 0xe0"
  shows "\<not> l + 8 \<le> 0xc7" and "\<not> l \<le> 0xdf" and "l \<le> 0xef"
proof -
  have "l AND 0xf0 = 0xe0 \<longleftrightarrow> drop_bit 4 l = 14"
    by (rule hi_mask_test) (simp_all add: mask_eq_exp_minus_1)
  then have "unat l div 16 = 14" using assms
    by (simp add: word_unat_eq_iff unat_drop_bit_eq drop_bit_eq_div[where ?'a = nat])
  then have r: "0xe0 \<le> l \<and> l \<le> 0xef" by (simp add: word_le_nat_alt) arith
  then show "l \<le> 0xef" by simp
  from r show "\<not> l \<le> 0xdf" by (simp add: word_le_nat_alt)
  from r have "0xc0 \<le> l" "l \<le> 0xf7" by (simp_all add: word_le_nat_alt)
  then show "\<not> l + 8 \<le> 0xc7" by (rule lead_not_single)
qed

lemma lead4_range:
  assumes "(l :: 8 word) AND 0xf8 = 0xf0"
  shows "\<not> l + 8 \<le> 0xc7" and "\<not> l \<le> 0xdf" and "\<not> l \<le> 0xef"
proof -
  have "l AND 0xf8 = 0xf0 \<longleftrightarrow> drop_bit 3 l = 30"
    by (rule hi_mask_test) (simp_all add: mask_eq_exp_minus_1)
  then have "unat l div 8 = 30" using assms
    by (simp add: word_unat_eq_iff unat_drop_bit_eq drop_bit_eq_div[where ?'a = nat])
  then have r: "0xf0 \<le> l \<and> l \<le> 0xf7" by (simp add: word_le_nat_alt) arith
  from r show "\<not> l \<le> 0xdf" "\<not> l \<le> 0xef" by (simp_all add: word_le_nat_alt)
  from r have "0xc0 \<le> l" "l \<le> 0xf7" by (simp_all add: word_le_nat_alt)
  then show "\<not> l + 8 \<le> 0xc7" by (rule lead_not_single)
qed

lemma drop_bit_lt:
  assumes "unat (r :: 32 word) < 2 ^ (k + m)"
  shows "unat (drop_bit k r) < 2 ^ m"
proof -
  have "unat r div 2 ^ k < 2 ^ m"
    using assms by (simp add: less_mult_imp_div_less power_add mult.commute)
  then show ?thesis
    by (simp add: unat_drop_bit_eq drop_bit_eq_div[where ?'a = nat])
qed

lemma take_bit_self: "(y :: 32 word) < 2 ^ m \<Longrightarrow> take_bit m y = y"
  by (simp add: take_bit_eq_mask less_mask_eq)

lemma join6:
  "push_bit 6 (drop_bit 6 r) + take_bit 6 r = (r :: 32 word)"
  "push_bit 6 (drop_bit 12 r) + take_bit 6 (drop_bit 6 r) = drop_bit 6 r"
  "push_bit 6 (drop_bit 18 r) + take_bit 6 (drop_bit 12 r) = drop_bit 12 r"
  using bits_ident [of 6 r] bits_ident [of 6 "drop_bit 6 r"] bits_ident [of 6 "drop_bit 12 r"]
  by simp_all

lemma utf8_value2_enc:
  assumes "(r :: 32 word) \<le> 0x7ff"
  shows "utf8_value2 (ucast (drop_bit 6 r) OR 0xc0) ((ucast r AND 0x3f) OR 0x80) = r"
    and "(ucast (drop_bit 6 r) OR 0xc0 :: 8 word) AND 0xe0 = 0xc0"
proof -
  have "unat r < 2 ^ (6 + 5)" using assms by (simp add: word_le_nat_alt)
  then have "unat (drop_bit 6 r) < 2 ^ 5" by (rule drop_bit_lt)
  then have y: "drop_bit 6 r < 2 ^ 5" by (simp add: word_less_nat_alt)
  show "utf8_value2 (ucast (drop_bit 6 r) OR 0xc0) ((ucast r AND 0x3f) OR 0x80) = r"
    unfolding utf8_value2_def lead2_payload cont_payload take_bit_self [OF y] join6
    by (rule refl)
  show "(ucast (drop_bit 6 r) OR 0xc0 :: 8 word) AND 0xe0 = 0xc0"
    using y by (rule lead2_tag)
qed

lemma utf8_value3_enc:
  assumes "(r :: 32 word) \<le> 0xffff"
  shows "utf8_value3 (ucast (drop_bit 12 r) OR 0xe0) ((ucast (drop_bit 6 r) AND 0x3f) OR 0x80)
           ((ucast r AND 0x3f) OR 0x80) = r"
    and "(ucast (drop_bit 12 r) OR 0xe0 :: 8 word) AND 0xf0 = 0xe0"
proof -
  have "unat r < 2 ^ (12 + 4)" using assms by (simp add: word_le_nat_alt)
  then have "unat (drop_bit 12 r) < 2 ^ 4" by (rule drop_bit_lt)
  then have y: "drop_bit 12 r < 2 ^ 4" by (simp add: word_less_nat_alt)
  show "utf8_value3 (ucast (drop_bit 12 r) OR 0xe0) ((ucast (drop_bit 6 r) AND 0x3f) OR 0x80)
           ((ucast r AND 0x3f) OR 0x80) = r"
    unfolding utf8_value3_def lead3_payload cont_payload take_bit_self [OF y] join6
    by (rule refl)
  show "(ucast (drop_bit 12 r) OR 0xe0 :: 8 word) AND 0xf0 = 0xe0"
    using y by (rule lead3_tag)
qed

lemma utf8_value4_enc:
  assumes "(r :: 32 word) \<le> 0x10ffff"
  shows "utf8_value4 (ucast (drop_bit 18 r) OR 0xf0) ((ucast (drop_bit 12 r) AND 0x3f) OR 0x80)
           ((ucast (drop_bit 6 r) AND 0x3f) OR 0x80) ((ucast r AND 0x3f) OR 0x80) = r"
    and "(ucast (drop_bit 18 r) OR 0xf0 :: 8 word) AND 0xf8 = 0xf0"
proof -
  have "unat r < 2 ^ (18 + 3)" using assms by (simp add: word_le_nat_alt)
  then have "unat (drop_bit 18 r) < 2 ^ 3" by (rule drop_bit_lt)
  then have y: "drop_bit 18 r < 2 ^ 3" by (simp add: word_less_nat_alt)
  show "utf8_value4 (ucast (drop_bit 18 r) OR 0xf0) ((ucast (drop_bit 12 r) AND 0x3f) OR 0x80)
           ((ucast (drop_bit 6 r) AND 0x3f) OR 0x80) ((ucast r AND 0x3f) OR 0x80) = r"
    unfolding utf8_value4_def lead4_payload cont_payload take_bit_self [OF y] join6
    by (rule refl)
  show "(ucast (drop_bit 18 r) OR 0xf0 :: 8 word) AND 0xf8 = 0xf0"
    using y by (rule lead4_tag)
qed

lemma getUTF8_decode1:
  assumes "1 \<le> m" "b ! 0 = l" "l \<le> 0x7f" "ucast l = r"
  shows "getUTF8 (Some b) m j = (True, r, 1)"
proof -
  have "unat l + unat (8 :: 8 word) < 2 ^ LENGTH(8)" using assms(3) by (simp add: word_le_nat_alt)
  then have "unat (l + 8) = unat l + unat (8 :: 8 word)" by (simp only: unat_add_lem)
  then have "l + 8 \<le> 0xc7" using assms(3) by (simp add: word_le_nat_alt)
  then have "b ! 0 + 8 \<le> 0xc7" using assms(2) by simp
  from getUTF8_form1 [OF assms(1) this] show ?thesis using assms by simp
qed

lemma getUTF8_decode2:
  assumes "2 \<le> m" "b ! 0 = l" "b ! 1 = c" "l AND 0xe0 = 0xc0" "c AND 0xc0 = 0x80"
    "utf8_value2 l c = r" "0x80 \<le> r \<or> (j \<and> r = 0)"
  shows "getUTF8 (Some b) m j = (True, r, 2)"
proof -
  have m: "1 \<le> m" using assms(1) by (simp add: word_le_nat_alt)
  have "\<not> b ! 0 + 8 \<le> 0xc7" "b ! 0 \<le> 0xdf"
    using lead2_range [OF assms(4)] assms(2) by simp_all
  from getUTF8_form2 [OF m this] show ?thesis using assms by simp
qed

lemma getUTF8_decode3:
  assumes "3 \<le> m" "b ! 0 = l" "b ! 1 = c1" "b ! 2 = c2" "l AND 0xf0 = 0xe0"
    "c1 AND 0xc0 = 0x80" "c2 AND 0xc0 = 0x80"
    "utf8_value3 l c1 c2 = r" "0x800 \<le> r" "r AND 0xfffff800 \<noteq> 0xd800"
  shows "getUTF8 (Some b) m j = (True, r, 3)"
proof -
  have m: "1 \<le> m" using assms(1) by (simp add: word_le_nat_alt)
  have "\<not> b ! 0 + 8 \<le> 0xc7" "\<not> b ! 0 \<le> 0xdf" "b ! 0 \<le> 0xef"
    using lead3_range [OF assms(5)] assms(2) by simp_all
  from getUTF8_form3 [OF m this] show ?thesis using assms by simp
qed

lemma getUTF8_decode4:
  assumes "4 \<le> m" "b ! 0 = l" "b ! 1 = c1" "b ! 2 = c2" "b ! 3 = c3" "l AND 0xf8 = 0xf0"
    "c1 AND 0xc0 = 0x80" "c2 AND 0xc0 = 0x80" "c3 AND 0xc0 = 0x80"
    "utf8_value4 l c1 c2 c3 = r" "0x10000 \<le> r" "r \<le> 0x10ffff"
  shows "getUTF8 (Some b) m j = (True, r, 4)"
proof -
  have m: "1 \<le> m" using assms(1) by (simp add: word_le_nat_alt)
  have "\<not> b ! 0 + 8 \<le> 0xc7" "\<not> b ! 0 \<le> 0xdf" "\<not> b ! 0 \<le> 0xef"
    using lead4_range [OF assms(6)] assms(2) by simp_all
  from getUTF8_form4 [OF m this] show ?thesis using assms by simp
qed

lemma ucast_ucast_small: "(r :: 32 word) \<le> 0x7f \<Longrightarrow> ucast (ucast r :: 8 word) = r"
proof -
  assume "r \<le> 0x7f"
  then have "r < 2 ^ 8" by (simp add: word_le_nat_alt word_less_nat_alt)
  then show ?thesis by (simp add: byte_of0 take_bit_self)
qed

lemma ucast_small_le: "(r :: 32 word) \<le> 0x7f \<Longrightarrow> (ucast r :: 8 word) \<le> 0x7f"
proof -
  assume a: "r \<le> 0x7f"
  have "unat (ucast (ucast r :: 8 word) :: 32 word) = unat (ucast r :: 8 word)"
    by (rule unat_ucast8)
  then show ?thesis using a ucast_ucast_small [OF a] by (simp add: word_le_nat_alt)
qed

lemma setUTF8_getUTF8:
  assumes rune: "is_rune r" and sz: "4 \<le> size'" and len: "unat size' \<le> length b"
  shows "\<exists>n b'. setUTF8 (Some b) size' r j = (True, n, Some b') \<and>
           (\<forall>m. n \<le> m \<longrightarrow> getUTF8 (Some b') m j = (True, r, n))"
proof -
  from rune have le: "r \<le> 0x10ffff" and ns: "r AND 0xfffff800 \<noteq> 0xd800"
    by (simp_all add: is_rune_iff)
  from le have "r < 2 ^ 31" by (simp add: word_le_nat_alt word_less_nat_alt)
  note sdb = sdb_nonneg [OF this]
  from sz have s: "1 \<le> size'" "2 \<le> size'" "3 \<le> size'" by (simp_all add: word_le_nat_alt)
  from sz len have "4 \<le> length b" by (simp add: word_le_nat_alt)
  then have l4: "b \<noteq> []" "0 < length b" "1 < length b" "2 < length b" "3 < length b"
    by auto
  consider (java) "r \<le> 0x7f" "j \<and> r = 0" | (one) "r \<le> 0x7f" "\<not> (j \<and> r = 0)"
    | (two) "\<not> r \<le> 0x7f" "r \<le> 0x7ff" | (three) "\<not> r \<le> 0x7ff" "r \<le> 0xffff"
    | (four) "\<not> r \<le> 0xffff"
    by blast
  then show ?thesis
  proof cases
    case java
    have set: "setUTF8 (Some b) size' r j = (True, 2, Some (b[0 := 0xc0, 1 := 0x80]))"
      using java s le by (simp add: setUTF8_def)
    have get: "getUTF8 (Some (b[0 := 0xc0, 1 := 0x80])) m j = (True, r, 2)" if "2 \<le> m" for m
      using that
    proof (rule getUTF8_decode2)
      show "b[0 := 0xc0, 1 := 0x80] ! 0 = 0xc0" "b[0 := 0xc0, 1 := 0x80] ! 1 = 0x80"
        using l4 by simp_all
      show "(0xc0 :: 8 word) AND 0xe0 = 0xc0" "(0x80 :: 8 word) AND 0xc0 = 0x80" by simp_all
      show "utf8_value2 0xc0 0x80 = r" using java by (simp add: utf8_value2_def)
      show "0x80 \<le> r \<or> (j \<and> r = 0)" using java by simp
    qed
    from set get show ?thesis by blast
  next
    case one
    have set: "setUTF8 (Some b) size' r j = (True, 1, Some (b[0 := ucast r]))"
      using one s le by (simp add: setUTF8_def)
    have get: "getUTF8 (Some (b[0 := ucast r])) m j = (True, r, 1)" if "1 \<le> m" for m
      using that
    proof (rule getUTF8_decode1)
      show "b[0 := ucast r] ! 0 = ucast r" using l4 by simp
      show "(ucast r :: 8 word) \<le> 0x7f" using one(1) by (rule ucast_small_le)
      show "ucast (ucast r :: 8 word) = r" using one(1) by (rule ucast_ucast_small)
    qed
    from set get show ?thesis by blast
  next
    case two
    let ?l = "ucast (drop_bit 6 r) OR 0xc0 :: 8 word"
    let ?c = "(ucast r AND 0x3f) OR 0x80 :: 8 word"
    have set: "setUTF8 (Some b) size' r j = (True, 2, Some (b[0 := ?l, 1 := ?c]))"
      using two s le by (simp add: setUTF8_def sdb)
    have get: "getUTF8 (Some (b[0 := ?l, 1 := ?c])) m j = (True, r, 2)" if "2 \<le> m" for m
      using that
    proof (rule getUTF8_decode2)
      show "b[0 := ?l, 1 := ?c] ! 0 = ?l" "b[0 := ?l, 1 := ?c] ! 1 = ?c" using l4 by simp_all
      show "?l AND 0xe0 = 0xc0" "utf8_value2 ?l ?c = r" using two(2) by (rule utf8_value2_enc)+
      show "?c AND 0xc0 = 0x80" by (rule cont_tag)
      show "0x80 \<le> r \<or> (j \<and> r = 0)" using two(1) by (simp add: word_le_nat_alt)
    qed
    from set get show ?thesis by blast
  next
    case three
    let ?l = "ucast (drop_bit 12 r) OR 0xe0 :: 8 word"
    let ?c1 = "(ucast (drop_bit 6 r) AND 0x3f) OR 0x80 :: 8 word"
    let ?c2 = "(ucast r AND 0x3f) OR 0x80 :: 8 word"
    have "\<not> r \<le> 0x7f" using three(1) by (simp add: word_le_nat_alt)
    then have set: "setUTF8 (Some b) size' r j = (True, 3, Some (b[0 := ?l, 1 := ?c1, 2 := ?c2]))"
      using three s le ns by (simp add: setUTF8_def sdb)
    have get: "getUTF8 (Some (b[0 := ?l, 1 := ?c1, 2 := ?c2])) m j = (True, r, 3)"
      if "3 \<le> m" for m
      using that
    proof (rule getUTF8_decode3)
      show "b[0 := ?l, 1 := ?c1, 2 := ?c2] ! 0 = ?l" "b[0 := ?l, 1 := ?c1, 2 := ?c2] ! 1 = ?c1"
        "b[0 := ?l, 1 := ?c1, 2 := ?c2] ! 2 = ?c2" using l4 by simp_all
      show "?l AND 0xf0 = 0xe0" "utf8_value3 ?l ?c1 ?c2 = r" using three(2) by (rule utf8_value3_enc)+
      show "?c1 AND 0xc0 = 0x80" "?c2 AND 0xc0 = 0x80" by (rule cont_tag)+
      show "0x800 \<le> r" using three(1) by (simp add: word_le_nat_alt)
      show "r AND 0xfffff800 \<noteq> 0xd800" by (rule ns)
    qed
    from set get show ?thesis by blast
  next
    case four
    let ?l = "ucast (drop_bit 18 r) OR 0xf0 :: 8 word"
    let ?c1 = "(ucast (drop_bit 12 r) AND 0x3f) OR 0x80 :: 8 word"
    let ?c2 = "(ucast (drop_bit 6 r) AND 0x3f) OR 0x80 :: 8 word"
    let ?c3 = "(ucast r AND 0x3f) OR 0x80 :: 8 word"
    have "\<not> r \<le> 0x7f" "\<not> r \<le> 0x7ff" using four by (simp_all add: word_le_nat_alt)
    then have set: "setUTF8 (Some b) size' r j
        = (True, 4, Some (b[0 := ?l, 1 := ?c1, 2 := ?c2, 3 := ?c3]))"
      using four s sz le by (simp add: setUTF8_def sdb)
    have get: "getUTF8 (Some (b[0 := ?l, 1 := ?c1, 2 := ?c2, 3 := ?c3])) m j = (True, r, 4)"
      if "4 \<le> m" for m
      using that
    proof (rule getUTF8_decode4)
      show "b[0 := ?l, 1 := ?c1, 2 := ?c2, 3 := ?c3] ! 0 = ?l"
        "b[0 := ?l, 1 := ?c1, 2 := ?c2, 3 := ?c3] ! 1 = ?c1"
        "b[0 := ?l, 1 := ?c1, 2 := ?c2, 3 := ?c3] ! 2 = ?c2"
        "b[0 := ?l, 1 := ?c1, 2 := ?c2, 3 := ?c3] ! 3 = ?c3" using l4 by simp_all
      show "?l AND 0xf8 = 0xf0" "utf8_value4 ?l ?c1 ?c2 ?c3 = r" using le by (rule utf8_value4_enc)+
      show "?c1 AND 0xc0 = 0x80" "?c2 AND 0xc0 = 0x80" "?c3 AND 0xc0 = 0x80" by (rule cont_tag)+
      show "0x10000 \<le> r" using four by (simp add: word_le_nat_alt)
      show "r \<le> 0x10ffff" by (rule le)
    qed
    from set get show ?thesis by blast
  qed
qed

lemma top_byte: "take_bit 8 (drop_bit 24 (x :: 32 word)) = drop_bit 24 x"
  by (intro bit_word_eqI) (auto simp add: bit_simps dest: bit32_lt)

lemma join8:
  "push_bit 8 (drop_bit 8 x) + take_bit 8 x = (x :: 32 word)"
  "push_bit 8 (drop_bit 16 x) + take_bit 8 (drop_bit 8 x) = drop_bit 8 x"
  "push_bit 8 (drop_bit 24 x) + take_bit 8 (drop_bit 16 x) = drop_bit 16 x"
  using bits_ident [of 8 x] bits_ident [of 8 "drop_bit 8 x"] bits_ident [of 8 "drop_bit 16 x"]
  by simp_all

lemma take_byte_sdb:
  "take_bit 8 (signed_drop_bit 8 x) = take_bit 8 (drop_bit 8 (x :: 32 word))"
  "take_bit 8 (signed_drop_bit 16 x) = take_bit 8 (drop_bit 16 x)"
  "take_bit 8 (signed_drop_bit 24 x) = drop_bit 24 x"
  by (intro bit_word_eqI; auto simp add: bit_simps dest: bit32_lt)+

lemma utf32_word_bytes:
  "utf32_word (ucast x) (ucast (signed_drop_bit 8 x)) (ucast (signed_drop_bit 16 x))
     (ucast (signed_drop_bit 24 x)) = x"
  unfolding utf32_word_def byte_of0 take_byte_sdb join8
  by (rule refl)

lemma utf16_unit_low: "utf16_unit (ucast x) (ucast (signed_drop_bit 8 x)) = take_bit 16 x"
proof -
  have "push_bit 8 (take_bit 8 (drop_bit 8 x)) + take_bit 8 x = take_bit 16 x"
    using bits_ident [of 8 "take_bit 16 x"] by (simp add: drop_bit_take_bit)
  then show ?thesis
    unfolding utf16_unit_def byte_of0 take_byte_sdb .
qed

lemma utf16_unit_high:
  "utf16_unit (ucast (signed_drop_bit 16 x)) (ucast (signed_drop_bit 24 x)) = drop_bit 16 x"
  unfolding utf16_unit_def byte_of0 take_byte_sdb join8
  by (rule refl)

lemma getUTF16le_decode_unit:
  assumes "2 \<le> m" "utf16_unit (b ! 0) (b ! 1) = r" "r AND 0xfffff800 \<noteq> 0xd800"
  shows "getUTF16le (Some b) m = (True, r, 2)"
  using getUTF16le_form [OF assms(1), of b] assms by simp

lemma getUTF16be_decode_unit:
  assumes "2 \<le> m" "utf16_unit (b ! 1) (b ! 0) = r" "r AND 0xfffff800 \<noteq> 0xd800"
  shows "getUTF16be (Some b) m = (True, r, 2)"
  using getUTF16be_form [OF assms(1), of b] assms by simp

lemma getUTF16le_decode_pair:
  assumes "4 \<le> m" "utf16_unit (b ! 0) (b ! 1) = hi" "utf16_unit (b ! 2) (b ! 3) = lo"
    "hi AND 0xfffff800 = 0xd800" "hi AND 0xfffffc00 = 0xd800" "lo AND 0xfffffc00 = 0xdc00"
    "utf16_pair hi lo = r"
  shows "getUTF16le (Some b) m = (True, r, 4)"
proof -
  have m: "2 \<le> m" using assms(1) by (simp add: word_le_nat_alt)
  from getUTF16le_form [OF m, of b] show ?thesis using assms by simp
qed

lemma getUTF16be_decode_pair:
  assumes "4 \<le> m" "utf16_unit (b ! 1) (b ! 0) = hi" "utf16_unit (b ! 3) (b ! 2) = lo"
    "hi AND 0xfffff800 = 0xd800" "hi AND 0xfffffc00 = 0xd800" "lo AND 0xfffffc00 = 0xdc00"
    "utf16_pair hi lo = r"
  shows "getUTF16be (Some b) m = (True, r, 4)"
proof -
  have m: "2 \<le> m" using assms(1) by (simp add: word_le_nat_alt)
  from getUTF16be_form [OF m, of b] show ?thesis using assms by simp
qed

text \<open>The word \<^verbatim>\<open>surrogate\<close> that the UTF-16 encoders build from \<^verbatim>\<open>unicode - 0x10000\<close>.\<close>

lemma surrogate_word:
  fixes s0 :: "32 word"
  assumes "s0 < 2 ^ 20"
  defines "s \<equiv> ((drop_bit 10 s0 OR push_bit 16 s0) AND 0x03ff03ff) OR 0xdc00d800"
  shows "take_bit 16 s AND 0xfffff800 = 0xd800"
    and "take_bit 16 s AND 0xfffffc00 = 0xd800"
    and "drop_bit 16 s AND 0xfffffc00 = 0xdc00"
    and "utf16_pair (take_bit 16 s) (drop_bit 16 s) = s0 + 0x10000"
proof -
  note hb = lt_pow_bits [OF assms(1)]
  show "take_bit 16 s AND 0xfffff800 = 0xd800"
    unfolding s_def
    apply (rule bit_word_eqI)
    subgoal for n using lt32_cases [of n] by (auto simp add: bit_simps hb)
    done
  show "take_bit 16 s AND 0xfffffc00 = 0xd800"
    unfolding s_def
    apply (rule bit_word_eqI)
    subgoal for n using lt32_cases [of n] by (auto simp add: bit_simps hb)
    done
  show "drop_bit 16 s AND 0xfffffc00 = 0xdc00"
    unfolding s_def
    apply (rule bit_word_eqI)
    subgoal for n using lt32_cases [of n] by (auto simp add: bit_simps hb)
    done
  have a: "take_bit 16 s AND 0x3ff = drop_bit 10 s0"
    unfolding s_def
    apply (rule bit_word_eqI)
    subgoal for n using lt32_cases [of n] by (auto simp add: bit_simps hb)
    done
  have b: "drop_bit 16 s AND 0x3ff = take_bit 10 s0"
    unfolding s_def
    apply (rule bit_word_eqI)
    subgoal for n using lt32_cases [of n] by (auto simp add: bit_simps hb)
    done
  show "utf16_pair (take_bit 16 s) (drop_bit 16 s) = s0 + 0x10000"
    unfolding utf16_pair_def a b bits_ident ..
qed

lemma supplementary_offset:
  assumes "(r :: 32 word) \<le> 0x10ffff" "\<not> r \<le> 0xffff"
  shows "r - 0x10000 < 2 ^ 20" and "r - 0x10000 < 2 ^ 31" and "r - 0x10000 + 0x10000 = r"
proof -
  have ge: "(0x10000 :: 32 word) \<le> r" using assms(2) by (simp add: word_le_nat_alt)
  then have "unat (r - 0x10000) = unat r - unat (0x10000 :: 32 word)" by (rule unat_sub)
  then have u: "unat (r - 0x10000) < 2 ^ 20" using assms(1) by (simp add: word_le_nat_alt)
  then show "r - 0x10000 < 2 ^ 20" by (simp add: word_less_nat_alt)
  from u show "r - 0x10000 < 2 ^ 31" by (simp add: word_less_nat_alt)
  show "r - 0x10000 + 0x10000 = r" by simp
qed

lemma bmp_take_bit: "(r :: 32 word) \<le> 0xffff \<Longrightarrow> take_bit 16 r = r"
proof -
  assume "r \<le> 0xffff"
  then have "r < 2 ^ 16" by (simp add: word_le_nat_alt word_less_nat_alt)
  then show ?thesis by (rule take_bit_self)
qed

lemma setUTF16le_getUTF16le:
  assumes rune: "is_rune r" and sz: "4 \<le> size'" and len: "unat size' \<le> length b"
  shows "\<exists>n b'. setUTF16le (Some b) size' r = (True, n, Some b') \<and>
           (\<forall>m. n \<le> m \<longrightarrow> getUTF16le (Some b') m = (True, r, n))"
proof -
  from rune have le: "r \<le> 0x10ffff" and ns: "r AND 0xfffff800 \<noteq> 0xd800"
    by (simp_all add: is_rune_iff)
  from sz have s: "2 \<le> size'" by (simp add: word_le_nat_alt)
  from sz len have "4 \<le> length b" by (simp add: word_le_nat_alt)
  then have l4: "b \<noteq> []" "0 < length b" "1 < length b" "2 < length b" "3 < length b"
    by auto
  show ?thesis
  proof (cases "r \<le> 0xffff")
    case True
    let ?b' = "b[0 := ucast r, 1 := ucast (signed_drop_bit 8 r)]"
    have set: "setUTF16le (Some b) size' r = (True, 2, Some ?b')"
      using True s le ns by (simp add: setUTF16le_def)
    have get: "getUTF16le (Some ?b') m = (True, r, 2)" if "2 \<le> m" for m
      using that
    proof (rule getUTF16le_decode_unit)
      have "?b' ! 0 = ucast r" "?b' ! 1 = ucast (signed_drop_bit 8 r)" using l4 by simp_all
      then show "utf16_unit (?b' ! 0) (?b' ! 1) = r"
        by (simp only: utf16_unit_low bmp_take_bit [OF True])
      show "r AND 0xfffff800 \<noteq> 0xd800" by (rule ns)
    qed
    from set get show ?thesis by blast
  next
    case False
    define s0 where "s0 = r - 0x10000"
    define w where "w = ((drop_bit 10 s0 OR push_bit 16 s0) AND 0x03ff03ff) OR 0xdc00d800"
    note off = supplementary_offset [OF le False, folded s0_def]
    note sw = surrogate_word [OF off(1), folded w_def]
    let ?b' = "b[0 := ucast w, 1 := ucast (signed_drop_bit 8 w),
                 2 := ucast (signed_drop_bit 16 w), 3 := ucast (signed_drop_bit 24 w)]"
    have set: "setUTF16le (Some b) size' r = (True, 4, Some ?b')"
      using False s sz le ns
      by (simp add: setUTF16le_def Let_def s0_def [symmetric] sdb_nonneg [OF off(2)]
          w_def [symmetric])
    have get: "getUTF16le (Some ?b') m = (True, r, 4)" if "4 \<le> m" for m
      using that
    proof (rule getUTF16le_decode_pair)
      have n: "?b' ! 0 = ucast w" "?b' ! 1 = ucast (signed_drop_bit 8 w)"
        "?b' ! 2 = ucast (signed_drop_bit 16 w)" "?b' ! 3 = ucast (signed_drop_bit 24 w)"
        using l4 by simp_all
      show "utf16_unit (?b' ! 0) (?b' ! 1) = take_bit 16 w"
        by (simp only: n utf16_unit_low)
      show "utf16_unit (?b' ! 2) (?b' ! 3) = drop_bit 16 w"
        by (simp only: n utf16_unit_high)
      show "take_bit 16 w AND 0xfffff800 = 0xd800" "take_bit 16 w AND 0xfffffc00 = 0xd800"
        "drop_bit 16 w AND 0xfffffc00 = 0xdc00" by (rule sw)+
      show "utf16_pair (take_bit 16 w) (drop_bit 16 w) = r"
        using sw(4) off(3) by simp
    qed
    from set get show ?thesis by blast
  qed
qed

lemma setUTF16be_getUTF16be:
  assumes rune: "is_rune r" and sz: "4 \<le> size'" and len: "unat size' \<le> length b"
  shows "\<exists>n b'. setUTF16be (Some b) size' r = (True, n, Some b') \<and>
           (\<forall>m. n \<le> m \<longrightarrow> getUTF16be (Some b') m = (True, r, n))"
proof -
  from rune have le: "r \<le> 0x10ffff" and ns: "r AND 0xfffff800 \<noteq> 0xd800"
    by (simp_all add: is_rune_iff)
  from sz have s: "2 \<le> size'" by (simp add: word_le_nat_alt)
  from sz len have "4 \<le> length b" by (simp add: word_le_nat_alt)
  then have l4: "b \<noteq> []" "0 < length b" "1 < length b" "2 < length b" "3 < length b"
    by auto
  show ?thesis
  proof (cases "r \<le> 0xffff")
    case True
    let ?b' = "b[0 := ucast (signed_drop_bit 8 r), 1 := ucast r]"
    have set: "setUTF16be (Some b) size' r = (True, 2, Some ?b')"
      using True s le ns by (simp add: setUTF16be_def)
    have get: "getUTF16be (Some ?b') m = (True, r, 2)" if "2 \<le> m" for m
      using that
    proof (rule getUTF16be_decode_unit)
      have "?b' ! 1 = ucast r" "?b' ! 0 = ucast (signed_drop_bit 8 r)" using l4 by simp_all
      then show "utf16_unit (?b' ! 1) (?b' ! 0) = r"
        by (simp only: utf16_unit_low bmp_take_bit [OF True])
      show "r AND 0xfffff800 \<noteq> 0xd800" by (rule ns)
    qed
    from set get show ?thesis by blast
  next
    case False
    define s0 where "s0 = r - 0x10000"
    define w where "w = ((drop_bit 10 s0 OR push_bit 16 s0) AND 0x03ff03ff) OR 0xdc00d800"
    note off = supplementary_offset [OF le False, folded s0_def]
    note sw = surrogate_word [OF off(1), folded w_def]
    let ?b' = "b[0 := ucast (signed_drop_bit 8 w), 1 := ucast w,
                 2 := ucast (signed_drop_bit 24 w), 3 := ucast (signed_drop_bit 16 w)]"
    have set: "setUTF16be (Some b) size' r = (True, 4, Some ?b')"
      using False s sz le ns
      by (simp add: setUTF16be_def Let_def s0_def [symmetric] sdb_nonneg [OF off(2)]
          w_def [symmetric])
    have get: "getUTF16be (Some ?b') m = (True, r, 4)" if "4 \<le> m" for m
      using that
    proof (rule getUTF16be_decode_pair)
      have n: "?b' ! 1 = ucast w" "?b' ! 0 = ucast (signed_drop_bit 8 w)"
        "?b' ! 3 = ucast (signed_drop_bit 16 w)" "?b' ! 2 = ucast (signed_drop_bit 24 w)"
        using l4 by simp_all
      show "utf16_unit (?b' ! 1) (?b' ! 0) = take_bit 16 w"
        by (simp only: n utf16_unit_low)
      show "utf16_unit (?b' ! 3) (?b' ! 2) = drop_bit 16 w"
        by (simp only: n utf16_unit_high)
      show "take_bit 16 w AND 0xfffff800 = 0xd800" "take_bit 16 w AND 0xfffffc00 = 0xd800"
        "drop_bit 16 w AND 0xfffffc00 = 0xdc00" by (rule sw)+
      show "utf16_pair (take_bit 16 w) (drop_bit 16 w) = r"
        using sw(4) off(3) by simp
    qed
    from set get show ?thesis by blast
  qed
qed

lemma setUTF32le_getUTF32le:
  assumes rune: "is_rune r" and sz: "4 \<le> size'" and len: "unat size' \<le> length b"
  shows "\<exists>n b'. setUTF32le (Some b) size' r = (True, n, Some b') \<and>
           (\<forall>m. n \<le> m \<longrightarrow> getUTF32le (Some b') m = (True, r, n))"
proof -
  from rune have le: "r \<le> 0x10ffff" and ns: "r AND 0xfffff800 \<noteq> 0xd800"
    by (simp_all add: is_rune_iff)
  from sz len have "4 \<le> length b" by (simp add: word_le_nat_alt)
  then have l4: "b \<noteq> []" "0 < length b" "1 < length b" "2 < length b" "3 < length b"
    by auto
  let ?b' = "b[0 := ucast r, 1 := ucast (signed_drop_bit 8 r),
               2 := ucast (signed_drop_bit 16 r), 3 := ucast (signed_drop_bit 24 r)]"
  have set: "setUTF32le (Some b) size' r = (True, 4, Some ?b')"
    using sz le ns by (simp add: setUTF32le_def)
  have n: "?b' ! 0 = ucast r" "?b' ! 1 = ucast (signed_drop_bit 8 r)"
    "?b' ! 2 = ucast (signed_drop_bit 16 r)" "?b' ! 3 = ucast (signed_drop_bit 24 r)"
    using l4 by simp_all
  have v: "utf32_word (?b' ! 0) (?b' ! 1) (?b' ! 2) (?b' ! 3) = r"
    by (simp only: n utf32_word_bytes)
  have get: "getUTF32le (Some ?b') m = (True, r, 4)" if "4 \<le> m" for m
    unfolding getUTF32le_form [OF that] v using le ns by simp
  from set get show ?thesis by blast
qed

lemma setUTF32be_getUTF32be:
  assumes rune: "is_rune r" and sz: "4 \<le> size'" and len: "unat size' \<le> length b"
  shows "\<exists>n b'. setUTF32be (Some b) size' r = (True, n, Some b') \<and>
           (\<forall>m. n \<le> m \<longrightarrow> getUTF32be (Some b') m = (True, r, n))"
proof -
  from rune have le: "r \<le> 0x10ffff" and ns: "r AND 0xfffff800 \<noteq> 0xd800"
    by (simp_all add: is_rune_iff)
  from sz len have "4 \<le> length b" by (simp add: word_le_nat_alt)
  then have l4: "b \<noteq> []" "0 < length b" "1 < length b" "2 < length b" "3 < length b"
    by auto
  let ?b' = "b[0 := ucast (signed_drop_bit 24 r), 1 := ucast (signed_drop_bit 16 r),
               2 := ucast (signed_drop_bit 8 r), 3 := ucast r]"
  have set: "setUTF32be (Some b) size' r = (True, 4, Some ?b')"
    using sz le ns by (simp add: setUTF32be_def)
  have n: "?b' ! 3 = ucast r" "?b' ! 2 = ucast (signed_drop_bit 8 r)"
    "?b' ! 1 = ucast (signed_drop_bit 16 r)" "?b' ! 0 = ucast (signed_drop_bit 24 r)"
    using l4 by simp_all
  have v: "utf32_word (?b' ! 3) (?b' ! 2) (?b' ! 1) (?b' ! 0) = r"
    by (simp only: n utf32_word_bytes)
  have get: "getUTF32be (Some ?b') m = (True, r, 4)" if "4 \<le> m" for m
    unfolding getUTF32be_form [OF that] v using le ns by simp
  from set get show ?thesis by blast
qed

text \<open>
  C1. For every rune \<open>r\<close> and every primary encoding \<open>E\<close>, with the handler
  \<^verbatim>\<open>getHandler(E)\<close> (for \<^verbatim>\<open>OTHER\<close> and \<^verbatim>\<open>COUNT\<close> the Java-style UTF-8 handler, which
  round-trips too): encoding \<open>r\<close> into a buffer of at least 4 bytes succeeds, and decoding the
  buffer it leaves, with any size that covers the bytes written, succeeds with the same
  scalar \<open>r\<close> and a byte count equal to the count the encoder reported.
\<close>

theorem encode_decode_round_trip:
  "is_rune r \<Longrightarrow> 4 \<le> size' \<Longrightarrow> unat size' \<le> length b \<Longrightarrow>
   \<exists>n b'. set' (getHandler E) (Some b) size' r = (True, n, Some b') \<and>
     (\<forall>m. n \<le> m \<longrightarrow> get (getHandler E) (Some b') m = (True, r, n))"
proof (cases E)
  case UTF8
  assume "is_rune r" "4 \<le> size'" "unat size' \<le> length b"
  then show ?thesis unfolding UTF8 getHandler.simps handler_fields by (rule setUTF8_getUTF8)
next
  case UTF16le
  assume "is_rune r" "4 \<le> size'" "unat size' \<le> length b"
  then show ?thesis unfolding UTF16le getHandler.simps handler_fields
    by (rule setUTF16le_getUTF16le)
next
  case UTF16be
  assume "is_rune r" "4 \<le> size'" "unat size' \<le> length b"
  then show ?thesis unfolding UTF16be getHandler.simps handler_fields
    by (rule setUTF16be_getUTF16be)
next
  case UTF32le
  assume "is_rune r" "4 \<le> size'" "unat size' \<le> length b"
  then show ?thesis unfolding UTF32le getHandler.simps handler_fields
    by (rule setUTF32le_getUTF32le)
next
  case UTF32be
  assume "is_rune r" "4 \<le> size'" "unat size' \<le> length b"
  then show ?thesis unfolding UTF32be getHandler.simps handler_fields
    by (rule setUTF32be_getUTF32be)
next
  case OTHER
  assume "is_rune r" "4 \<le> size'" "unat size' \<le> length b"
  then show ?thesis unfolding OTHER getHandler.simps handler_fields by (rule setUTF8_getUTF8)
next
  case COUNT
  assume "is_rune r" "4 \<le> size'" "unat size' \<le> length b"
  then show ?thesis unfolding COUNT getHandler.simps handler_fields by (rule setUTF8_getUTF8)
qed

theorem encode_decode_round_trip_witness:
  "is_rune 0x10348 \<and> (4 :: uint32_t) \<le> 4 \<and> unat (4 :: uint32_t) \<le> length [0, 0, 0, 0 :: uint8_t] \<and>
   set' (getHandler UTF16le) (Some [0, 0, 0, 0]) 4 0x10348 = (True, 4, Some [0x00, 0xD8, 0x48, 0xDF]) \<and>
   get (getHandler UTF16le) (Some [0x00, 0xD8, 0x48, 0xDF]) 4 = (True, 0x10348, 4) \<and>
   set' (getHandler UTF8) (Some [0, 0, 0, 0]) 4 0x10348 = (True, 4, Some [0xF0, 0x90, 0x8D, 0x88]) \<and>
   get (getHandler UTF8) (Some [0xF0, 0x90, 0x8D, 0x88]) 4 = (True, 0x10348, 4)"
  using encode_decode_round_trip [of "0x10348" 4 "[0, 0, 0, 0]" UTF16le]
    encode_decode_round_trip [of "0x10348" 4 "[0, 0, 0, 0]" UTF8]
  by (simp add: is_rune_def handler_fields setUTF16le_def getUTF16le_def setUTF8_def getUTF8_def)

section \<open>Line scanning\<close>

text \<open>The scan of \<^verbatim>\<open>getLine\<close> under the UTF-8 handler, followed byte by byte: positions of
  the scan cursor are written \<open>of_nat i\<close>, and the bytes before the end of the cursor are
  the bytes of the list.\<close>

lemma unat_of_nat_le: "i \<le> unat (L :: 32 word) \<Longrightarrow> unat (of_nat i :: 32 word) = i"
proof -
  assume "i \<le> unat L"
  moreover have "unat L < 2 ^ 32" using unsigned_less [of L, where ?'a = nat] by simp
  ultimately have "i < 2 ^ 32" by simp
  then show ?thesis by (simp add: unat_of_nat)
qed

lemma scan_remaining:
  assumes "i \<le> unat (L :: 32 word)"
  shows "(of_nat i :: 32 word) \<le> L" and "unat (L - of_nat i) = unat L - i"
proof -
  have u: "unat (of_nat i :: 32 word) = i" using assms by (rule unat_of_nat_le)
  show le: "(of_nat i :: 32 word) \<le> L" using assms u by (simp add: word_le_nat_alt)
  show "unat (L - of_nat i) = unat L - i" using unat_sub [OF le] u by simp
qed

lemma buffer_at_Some:
  "buffer_at \<lparr>length' = L, offset = k, buffer = Some s\<rparr> = Inr (Some (drop (unat k) s))"
  by (simp add: buffer_at_def)

lemma IUTF_get_UTF8_at:
  assumes "i \<le> unat L"
  shows "IUTF_get CUTF8 \<lparr>length' = L, offset = of_nat i, buffer = Some s\<rparr>
           = Inr (getUTF8 (Some (drop i s)) (L - of_nat i) False)"
  using scan_remaining(1) [OF assms] unat_of_nat_le [OF assms]
  by (simp add: IUTF_get_def buffer_at_Some handler_fields)

lemma get_ascii_at:
  assumes i: "i < unat L" and len: "unat L \<le> length s" and a: "s ! i \<le> 0x7f"
  shows "IUTF_get CUTF8 \<lparr>length' = L, offset = of_nat i, buffer = Some s\<rparr>
           = Inr (True, ucast (s ! i), 1)"
proof -
  from i have i': "i \<le> unat L" by simp
  have "unat (L - of_nat i) = unat L - i" using i' by (rule scan_remaining)
  then have m: "1 \<le> L - of_nat i" using i by (simp add: word_le_nat_alt)
  have n: "drop i s ! 0 = s ! i" using i len by simp
  have "getUTF8 (Some (drop i s)) (L - of_nat i) False = (True, ucast (s ! i), 1)"
    using m n a by (rule getUTF8_decode1) simp
  then show ?thesis by (simp add: IUTF_get_UTF8_at [OF i'])
qed

lemma get_at_end:
  "IUTF_get CUTF8 \<lparr>length' = L, offset = L, buffer = Some s\<rparr> = Inr (False, 0, 0)"
  by (simp add: IUTF_get_def buffer_at_Some handler_fields getUTF8_empty)

lemma success_if:
  "(if c then (True, a, k) else getUTF8_fail x) = (True, v, n) \<Longrightarrow> c \<and> v = a"
  by (cases c) (simp_all add: getUTF8_fail_def)

lemma getUTF8_nonascii_value:
  assumes "\<not> d ! 0 \<le> 0x7f" and "getUTF8 (Some d) m False = (True, v, n)"
  shows "0x80 \<le> v"
proof -
  have m: "1 \<le> m" using assms(2) by (cases "1 \<le> m") (simp_all add: getUTF8_empty)
  consider (one) "d ! 0 + 8 \<le> 0xc7" | (two) "\<not> d ! 0 + 8 \<le> 0xc7" "d ! 0 \<le> 0xdf"
    | (three) "\<not> d ! 0 + 8 \<le> 0xc7" "\<not> d ! 0 \<le> 0xdf" "d ! 0 \<le> 0xef"
    | (four) "\<not> d ! 0 + 8 \<le> 0xc7" "\<not> d ! 0 \<le> 0xdf" "\<not> d ! 0 \<le> 0xef"
    by blast
  then show ?thesis
  proof cases
    case one
    show ?thesis using assms unfolding getUTF8_form1 [OF m one]
      by (simp add: getUTF8_fail_def)
  next
    case two
    have "0x80 \<le> utf8_value2 (d ! 0) (d ! 1) \<and> v = utf8_value2 (d ! 0) (d ! 1)"
      using success_if [OF assms(2) [unfolded getUTF8_form2 [OF m two]]] by simp
    then show ?thesis by simp
  next
    case three
    have "0x800 \<le> utf8_value3 (d ! 0) (d ! 1) (d ! 2) \<and> v = utf8_value3 (d ! 0) (d ! 1) (d ! 2)"
      using success_if [OF assms(2) [unfolded getUTF8_form3 [OF m three]]] by simp
    then have "0x800 \<le> v" by simp
    then show ?thesis by (simp add: word_le_nat_alt)
  next
    case four
    have "0x10000 \<le> utf8_value4 (d ! 0) (d ! 1) (d ! 2) (d ! 3) \<and>
        v = utf8_value4 (d ! 0) (d ! 1) (d ! 2) (d ! 3)"
      using success_if [OF assms(2) [unfolded getUTF8_form4 [OF m four]]] by simp
    then have "0x10000 \<le> v" by simp
    then show ?thesis by (simp add: word_le_nat_alt)
  qed
qed

lemma ucast_byte_eq: "(ucast (c :: 8 word) :: 32 word) = ucast d \<longleftrightarrow> c = d"
  by (simp add: word_unat_eq_iff unat_ucast8)

lemma ucast_byte_numerals:
  "(ucast (0x00 :: 8 word) :: 32 word) = 0x0000" "(ucast (0x0a :: 8 word) :: 32 word) = 0x000a"
  "(ucast (0x0b :: 8 word) :: 32 word) = 0x000b" "(ucast (0x0c :: 8 word) :: 32 word) = 0x000c"
  "(ucast (0x0d :: 8 word) :: 32 word) = 0x000d"
  by simp_all

lemma plain_ascii_scalar:
  assumes "plain_ascii c"
  shows "c \<le> 0x7f"
    and "(ucast c :: 32 word) \<noteq> 0x0000" "(ucast c :: 32 word) \<noteq> 0x000a"
    and "(ucast c :: 32 word) \<noteq> 0x000b" "(ucast c :: 32 word) \<noteq> 0x000c"
    and "(ucast c :: 32 word) \<noteq> 0x000d" "(ucast c :: 32 word) \<noteq> 0x0085"
    and "(ucast c :: 32 word) \<noteq> 0x2028" "(ucast c :: 32 word) \<noteq> 0x2029"
  using assms
  by (simp_all add: plain_ascii_def word_unat_eq_iff unat_ucast8 word_le_nat_alt)


lemma xor7_swap: "(x :: 32 word) = y XOR 7 \<longleftrightarrow> y = x XOR 7"
  by (metis xor.assoc xor.right_neutral xor_self_eq)

lemma getNLF_plain_at:
  assumes "i < unat L" "unat L \<le> length s" "plain_ascii (s ! i)"
  shows "IUTF_getNLF CUTF8 \<lparr>length' = L, offset = of_nat i, buffer = Some s\<rparr>
           = Inr (True, ucast (s ! i), 1)"
  using plain_ascii_scalar [OF assms(3)]
  by (simp add: IUTF_getNLF_def get_ascii_at [OF assms(1,2)])

lemma getLine_loop_step:
  assumes "i < unat L" "unat L \<le> length s" "plain_ascii (s ! i)"
  shows "getLine_loop CUTF8 \<lparr>length' = L, offset = of_nat i, buffer = Some s\<rparr>
           = getLine_loop CUTF8 \<lparr>length' = L, offset = of_nat (Suc i), buffer = Some s\<rparr>"
  using plain_ascii_scalar [OF assms(3)]
  by (subst getLine_loop.simps) (simp add: getNLF_plain_at [OF assms] add.commute)

lemma getLine_loop_skip:
  assumes "i \<le> j" "j \<le> unat L" "unat L \<le> length s"
    and "\<forall>m. i \<le> m \<and> m < j \<longrightarrow> plain_ascii (s ! m)"
  shows "getLine_loop CUTF8 \<lparr>length' = L, offset = of_nat i, buffer = Some s\<rparr>
           = getLine_loop CUTF8 \<lparr>length' = L, offset = of_nat j, buffer = Some s\<rparr>"
  using assms(1)
proof (induction rule: dec_induct)
  case base
  show ?case by (rule refl)
next
  case (step n)
  have "getLine_loop CUTF8 \<lparr>length' = L, offset = of_nat n, buffer = Some s\<rparr>
           = getLine_loop CUTF8 \<lparr>length' = L, offset = of_nat (Suc n), buffer = Some s\<rparr>"
    using step(1,2) assms(2,3,4) by (intro getLine_loop_step) auto
  with step.IH show ?case by simp
qed

lemma getLine_loop_end:
  "getLine_loop CUTF8 \<lparr>length' = L, offset = L, buffer = Some s\<rparr>
     = Some (Inr (False, no_line, 0))"
  by (subst getLine_loop.simps) (simp add: IUTF_getNLF_def get_at_end)

lemma get_next_at:
  assumes q: "q < unat L" and len: "unat L \<le> length s"
  shows "\<exists>paired pairing extra.
     IUTF_get CUTF8 \<lparr>length' = L, offset = of_nat q + 1, buffer = Some s\<rparr>
       = Inr (paired, pairing, extra) \<and>
     (paired \<and> (pairing = 0x0a \<or> pairing = 0x0d) \<longleftrightarrow>
        Suc q < unat L \<and> (s ! Suc q = 0x0a \<or> s ! Suc q = 0x0d)) \<and>
     (paired \<and> (pairing = 0x0a \<or> pairing = 0x0d) \<longrightarrow>
        pairing = ucast (s ! Suc q) \<and> extra = 1)"
proof -
  have o: "(of_nat q + 1 :: 32 word) = of_nat (Suc q)" by simp
  show ?thesis
  proof (cases "Suc q < unat L")
    case False
    then have "Suc q = unat L" using q by simp
    then have "(of_nat (Suc q) :: 32 word) = L" by (metis of_nat_unat ucast_id)
    then show ?thesis using False unfolding o by (auto simp add: get_at_end)
  next
    case True
    show ?thesis
    proof (cases "s ! Suc q \<le> 0x7f")
      case a: True
      have "IUTF_get CUTF8 \<lparr>length' = L, offset = of_nat (Suc q), buffer = Some s\<rparr>
           = Inr (True, ucast (s ! Suc q), 1)"
        using True len a by (rule get_ascii_at)
      moreover have "((ucast (s ! Suc q) :: 32 word) = 0x0a \<or> (ucast (s ! Suc q) :: 32 word) = 0x0d)
          \<longleftrightarrow> (s ! Suc q = 0x0a \<or> s ! Suc q = 0x0d)"
        by (simp add: word_unat_eq_iff unat_ucast8)
      ultimately show ?thesis using True unfolding o
        by (intro exI [of _ True] exI [of _ "ucast (s ! Suc q)"] exI [of _ 1]) simp
    next
      case na: False
      have le: "Suc q \<le> unat L" using True by simp
      obtain paired pairing extra where
        g: "getUTF8 (Some (drop (Suc q) s)) (L - of_nat (Suc q)) False = (paired, pairing, extra)"
        by (cases "getUTF8 (Some (drop (Suc q) s)) (L - of_nat (Suc q)) False") auto
      have n: "drop (Suc q) s ! 0 = s ! Suc q" using True len by simp
      have big: "0x80 \<le> pairing" if paired
        using getUTF8_nonascii_value [of "drop (Suc q) s" "L - of_nat (Suc q)" pairing extra]
          na n g that by simp
      have "\<not> (paired \<and> (pairing = 0x0a \<or> pairing = 0x0d))"
        using big by (auto simp add: word_le_nat_alt)
      moreover have "\<not> (s ! Suc q = 0x0a \<or> s ! Suc q = 0x0d)"
        using na by (auto simp add: word_le_nat_alt)
      ultimately show ?thesis unfolding o IUTF_get_UTF8_at [OF le] g by auto
    qed
  qed
qed

lemma getNLF_boundary_at:
  assumes q: "q < unat L" and len: "unat L \<le> length s"
    and t: "s ! q = 0x00 \<or> s ! q = 0x0a \<or> s ! q = 0x0b \<or> s ! q = 0x0c \<or> s ! q = 0x0d"
  shows "IUTF_getNLF CUTF8 \<lparr>length' = L, offset = of_nat q, buffer = Some s\<rparr>
     = Inr (True, if s ! q = 0x00 then 0x0000 else 0x000a,
            if (s ! q = 0x0a \<or> s ! q = 0x0d) \<and> Suc q < unat L \<and> s ! Suc q = s ! q XOR 0x07
            then 2 else 1)"
proof -
  have a: "s ! q \<le> 0x7f" using t by (auto simp add: word_le_nat_alt)
  note g = get_ascii_at [OF q len a]
  from t consider (nul) "s ! q = 0x00" | (vt) "s ! q = 0x0b \<or> s ! q = 0x0c"
    | (lf) "s ! q = 0x0a" | (cr) "s ! q = 0x0d" by blast
  then show ?thesis
  proof cases
    case nul
    then show ?thesis by (simp add: IUTF_getNLF_def g)
  next
    case vt
    then show ?thesis by (auto simp add: IUTF_getNLF_def g)
  next
    case lf
    from get_next_at [OF q len] obtain paired pairing extra where
      n: "IUTF_get CUTF8 \<lparr>length' = L, offset = of_nat q + 1, buffer = Some s\<rparr>
            = Inr (paired, pairing, extra)"
      and iff: "paired \<and> (pairing = 0x0a \<or> pairing = 0x0d) \<longleftrightarrow>
        Suc q < unat L \<and> (s ! Suc q = 0x0a \<or> s ! Suc q = 0x0d)"
      and val: "paired \<and> (pairing = 0x0a \<or> pairing = 0x0d) \<longrightarrow>
        pairing = ucast (s ! Suc q) \<and> extra = 1"
      by blast
    have x: "(0x0a :: 32 word) = pairing XOR 7 \<longleftrightarrow> pairing = 0x0d"
      "pairing XOR 7 = (0x0a :: 32 word) \<longleftrightarrow> pairing = 0x0d"
      using xor7_swap [of "0x0a" pairing] by auto
    have e: "paired \<and> pairing = 0x0d \<longleftrightarrow> Suc q < unat L \<and> s ! Suc q = 0x0d"
      using iff val by (auto simp add: word_unat_eq_iff unat_ucast8)
    show ?thesis using lf e val by (auto simp add: IUTF_getNLF_def g n x)
  next
    case cr
    from get_next_at [OF q len] obtain paired pairing extra where
      n: "IUTF_get CUTF8 \<lparr>length' = L, offset = of_nat q + 1, buffer = Some s\<rparr>
            = Inr (paired, pairing, extra)"
      and iff: "paired \<and> (pairing = 0x0a \<or> pairing = 0x0d) \<longleftrightarrow>
        Suc q < unat L \<and> (s ! Suc q = 0x0a \<or> s ! Suc q = 0x0d)"
      and val: "paired \<and> (pairing = 0x0a \<or> pairing = 0x0d) \<longrightarrow>
        pairing = ucast (s ! Suc q) \<and> extra = 1"
      by blast
    have x: "(0x0d :: 32 word) = pairing XOR 7 \<longleftrightarrow> pairing = 0x0a"
      "pairing XOR 7 = (0x0d :: 32 word) \<longleftrightarrow> pairing = 0x0a"
      using xor7_swap [of "0x0d" pairing] by auto
    have e: "paired \<and> pairing = 0x0a \<longleftrightarrow> Suc q < unat L \<and> s ! Suc q = 0x0a"
      using iff val by (auto simp add: word_unat_eq_iff unat_ucast8)
    show ?thesis using cr e val by (auto simp add: IUTF_getNLF_def g n x)
  qed
qed


lemma getLine_loop_boundary:
  assumes "q < unat L" "unat L \<le> length s"
    and "s ! q = 0x00 \<or> s ! q = 0x0a \<or> s ! q = 0x0b \<or> s ! q = 0x0c \<or> s ! q = 0x0d"
  shows "getLine_loop CUTF8 \<lparr>length' = L, offset = of_nat q, buffer = Some s\<rparr>
     = Some (Inr (True, \<lparr>length' = of_nat q, offset = 0, buffer = Some s\<rparr>,
          (if (s ! q = 0x0a \<or> s ! q = 0x0d) \<and> Suc q < unat L \<and> s ! Suc q = s ! q XOR 0x07
           then 2 else 1) + of_nat q))"
  by (subst getLine_loop.simps) (simp add: getNLF_boundary_at [OF assms])

lemma scan_no_line:
  assumes len: "unat L \<le> length s" and run: "list_all plain_ascii (take (unat L) s)"
  shows "getLine_loop CUTF8 \<lparr>length' = L, offset = 0, buffer = Some s\<rparr>
           = Some (Inr (False, no_line, 0))"
proof -
  have "\<forall>m. 0 \<le> m \<and> m < unat L \<longrightarrow> plain_ascii (s ! m)"
    using run len by (auto simp add: list_all_length)
  then have "getLine_loop CUTF8 \<lparr>length' = L, offset = of_nat 0, buffer = Some s\<rparr>
      = getLine_loop CUTF8 \<lparr>length' = L, offset = of_nat (unat L), buffer = Some s\<rparr>"
    using len by (intro getLine_loop_skip) simp_all
  then show ?thesis by (simp add: getLine_loop_end)
qed

lemma scan_line:
  assumes len: "unat L \<le> length s" and split: "take (unat L) s = run @ t # rest"
    and run: "list_all plain_ascii run"
    and t: "t = 0x00 \<or> t = 0x0a \<or> t = 0x0b \<or> t = 0x0c \<or> t = 0x0d"
  shows "getLine_loop CUTF8 \<lparr>length' = L, offset = 0, buffer = Some s\<rparr>
     = Some (Inr (True, \<lparr>length' = of_nat (length run), offset = 0, buffer = Some s\<rparr>,
          (if (t = 0x0a \<or> t = 0x0d) \<and> rest \<noteq> [] \<and> hd rest = t XOR 0x07 then 2 else 1)
            + of_nat (length run)))"
    and "take (unat (of_nat (length run) :: 32 word)) s = run"
proof -
  have "length (take (unat L) s) = unat L" using len by simp
  then have total: "unat L = length run + Suc (length rest)" unfolding split by simp
  then have q: "length run < unat L" by simp
  have nth: "s ! m = (run @ t # rest) ! m" if "m < unat L" for m
    using that split by (metis nth_take)
  have plain: "\<forall>m. 0 \<le> m \<and> m < length run \<longrightarrow> plain_ascii (s ! m)"
    using run q nth by (auto simp add: list_all_length nth_append)
  have at: "s ! length run = t" using nth [OF q] by simp
  have more: "Suc (length run) < unat L \<longleftrightarrow> rest \<noteq> []" using total by auto
  have after: "s ! Suc (length run) = hd rest" if "rest \<noteq> []"
  proof -
    have "Suc (length run) < unat L" using that more by simp
    then have "s ! Suc (length run) = (run @ t # rest) ! Suc (length run)" by (rule nth)
    also have "\<dots> = rest ! 0" by (simp add: nth_append)
    finally show ?thesis using that by (simp add: hd_conv_nth)
  qed
  have "getLine_loop CUTF8 \<lparr>length' = L, offset = of_nat 0, buffer = Some s\<rparr>
      = getLine_loop CUTF8 \<lparr>length' = L, offset = of_nat (length run), buffer = Some s\<rparr>"
    using q len plain by (intro getLine_loop_skip) simp_all
  also have "\<dots> = Some (Inr (True, \<lparr>length' = of_nat (length run), offset = 0, buffer = Some s\<rparr>,
          (if (s ! length run = 0x0a \<or> s ! length run = 0x0d) \<and> Suc (length run) < unat L
               \<and> s ! Suc (length run) = s ! length run XOR 0x07
           then 2 else 1) + of_nat (length run)))"
    using q len t unfolding at [symmetric] by (rule getLine_loop_boundary)
  finally show "getLine_loop CUTF8 \<lparr>length' = L, offset = 0, buffer = Some s\<rparr>
     = Some (Inr (True, \<lparr>length' = of_nat (length run), offset = 0, buffer = Some s\<rparr>,
          (if (t = 0x0a \<or> t = 0x0d) \<and> rest \<noteq> [] \<and> hd rest = t XOR 0x07 then 2 else 1)
            + of_nat (length run)))"
    using more after unfolding at by auto
  have "unat (of_nat (length run) :: 32 word) = length run"
    using q by (intro unat_of_nat_le [of _ L]) simp
  moreover have "take (length run) s = take (length run) (take (unat L) s)"
    using q by (simp add: min_def)
  ultimately show "take (unat (of_nat (length run) :: 32 word)) s = run"
    unfolding split by simp
qed

lemma getLine_scan:
  assumes "buffer text = Some b" "offset text \<le> length' text"
  shows "IUTF_getLine CUTF8 text = getLine_loop CUTF8
       \<lparr>length' = length' text - offset text, offset = 0,
        buffer = Some (drop (unat (offset text)) b)\<rparr>"
  using assms by (simp add: IUTF_getLine_def buffer_at_def)

lemma remaining_bytes:
  assumes "buffer text = Some b" "offset text \<le> length' text" "unat (length' text) \<le> length b"
  shows "drop (unat (offset text)) (text_bytes text)
           = take (unat (length' text - offset text)) (drop (unat (offset text)) b)"
    and "unat (length' text - offset text) \<le> length (drop (unat (offset text)) b)"
  using assms by (simp_all add: text_bytes_def drop_take unat_sub word_le_nat_alt)

lemma getLine_no_line:
  assumes b: "buffer text = Some b" and o: "offset text \<le> length' text"
    and len: "unat (length' text) \<le> length b"
    and run: "list_all plain_ascii (drop (unat (offset text)) (text_bytes text))"
  shows "IUTF_getLine CUTF8 text = Some (Inr (False, no_line, 0))"
  unfolding getLine_scan [OF b o]
  using remaining_bytes(2) [OF b o len] run [unfolded remaining_bytes(1) [OF b o len]]
  by (rule scan_no_line)

lemma getLine_line:
  assumes b: "buffer text = Some b" and o: "offset text \<le> length' text"
    and len: "unat (length' text) \<le> length b"
    and split: "drop (unat (offset text)) (text_bytes text) = run @ t # rest"
    and run: "list_all plain_ascii run"
    and t: "t = 0x00 \<or> t = 0x0a \<or> t = 0x0b \<or> t = 0x0c \<or> t = 0x0d"
  shows "IUTF_getLine CUTF8 text
     = Some (Inr (True, \<lparr>length' = of_nat (length run), offset = 0,
                          buffer = Some (drop (unat (offset text)) b)\<rparr>,
          (if (t = 0x0a \<or> t = 0x0d) \<and> rest \<noteq> [] \<and> hd rest = t XOR 0x07 then 2 else 1)
            + of_nat (length run)))"
    and "text_bytes \<lparr>length' = of_nat (length run), offset = 0,
                     buffer = Some (drop (unat (offset text)) b)\<rparr> = run"
proof -
  note s = split [unfolded remaining_bytes(1) [OF b o len]]
  show "IUTF_getLine CUTF8 text
     = Some (Inr (True, \<lparr>length' = of_nat (length run), offset = 0,
                          buffer = Some (drop (unat (offset text)) b)\<rparr>,
          (if (t = 0x0a \<or> t = 0x0d) \<and> rest \<noteq> [] \<and> hd rest = t XOR 0x07 then 2 else 1)
            + of_nat (length run)))"
    unfolding getLine_scan [OF b o]
    using remaining_bytes(2) [OF b o len] s run t by (rule scan_line(1))
  have "take (unat (of_nat (length run) :: 32 word)) (drop (unat (offset text)) b) = run"
    using remaining_bytes(2) [OF b o len] s run t by (rule scan_line(2))
  then show "text_bytes \<lparr>length' = of_nat (length run), offset = 0,
                     buffer = Some (drop (unat (offset text)) b)\<rparr> = run"
    by (simp add: text_bytes_def)
qed

lemma getNLF_rule:
  assumes g: "IUTF_get h text = Inr (success, unicode, bytes)"
    and n: "IUTF_get h (text\<lparr>offset := offset text + bytes\<rparr>) = Inr (paired, pairing, extra)"
  shows "IUTF_getNLF h text = Inr (success,
      if success \<and> (unicode = 0x000a \<or> unicode = 0x000b \<or> unicode = 0x000c \<or> unicode = 0x000d
           \<or> unicode = 0x0085 \<or> unicode = 0x2028 \<or> unicode = 0x2029)
      then 0x000a else unicode,
      if success \<and> paired \<and> (unicode = 0x000a \<and> pairing = 0x000d
           \<or> unicode = 0x000d \<and> pairing = 0x000a)
      then bytes + extra else bytes)"
proof -
  have x: "(0x0a :: 32 word) = pairing XOR 7 \<longleftrightarrow> pairing = 0x0d"
      "(0x0d :: 32 word) = pairing XOR 7 \<longleftrightarrow> pairing = 0x0a"
    using xor7_swap [of "0x0a" pairing] xor7_swap [of "0x0d" pairing] by auto
  show ?thesis
  proof (cases "success \<and> (unicode = 0x000a \<or> unicode = 0x000d)")
    case True
    then show ?thesis using x by (auto simp add: IUTF_getNLF_def g n Let_def)
  next
    case False
    then show ?thesis by (auto simp add: IUTF_getNLF_def g)
  qed
qed


lemma line_scan_bytes:
  "IUTF_getLine CUTF8 \<lparr>length' = 4, offset = 0, buffer = Some [0x61, 0x0D, 0x0A, 0x62]\<rparr>
     = Some (Inr (True, \<lparr>length' = 1, offset = 0, buffer = Some [0x61, 0x0D, 0x0A, 0x62]\<rparr>, 3)) \<and>
   text_bytes \<lparr>length' = 1, offset = 0, buffer = Some [0x61, 0x0D, 0x0A, 0x62]\<rparr> = [0x61] \<and>
   IUTF_getNLF CUTF8 \<lparr>length' = 4, offset = 1, buffer = Some [0x61, 0x0D, 0x0A, 0x62]\<rparr>
     = Inr (True, 0x0A, 2) \<and>
   IUTF_readLine CUTF8 \<lparr>length' = 4, offset = 0, buffer = Some [0x61, 0x0D, 0x0A, 0x62]\<rparr>
     = Some (Inr (True, \<lparr>length' = 1, offset = 0, buffer = Some [0x61, 0x0D, 0x0A, 0x62]\<rparr>,
             \<lparr>length' = 4, offset = 3, buffer = Some [0x61, 0x0D, 0x0A, 0x62]\<rparr>)) \<and>
   IUTF_readLine CUTF8 \<lparr>length' = 4, offset = 3, buffer = Some [0x61, 0x0D, 0x0A, 0x62]\<rparr>
     = Some (Inr (False, no_line,
             \<lparr>length' = 4, offset = 3, buffer = Some [0x61, 0x0D, 0x0A, 0x62]\<rparr>)) \<and>
   IUTF_readLine CUTF8 \<lparr>length' = 5, offset = 3, buffer = Some [0x61, 0x0D, 0x0A, 0x62, 0x00]\<rparr>
     = Some (Inr (True, \<lparr>length' = 1, offset = 0, buffer = Some [0x62, 0x00]\<rparr>,
             \<lparr>length' = 5, offset = 5, buffer = Some [0x61, 0x0D, 0x0A, 0x62, 0x00]\<rparr>)) \<and>
   text_bytes \<lparr>length' = 1, offset = 0, buffer = Some [0x62, 0x00]\<rparr> = [0x62]"
  by code_simp

lemma get_CR_LF:
  "IUTF_get CUTF8 \<lparr>length' = 4, offset = 1, buffer = Some [0x61, 0x0D, 0x0A, 0x62]\<rparr>
     = Inr (True, 0x0D, 1)"
  "IUTF_get CUTF8 \<lparr>length' = 4, offset = 2, buffer = Some [0x61, 0x0D, 0x0A, 0x62]\<rparr>
     = Inr (True, 0x0A, 1)"
  by code_simp+

text \<open>
  C8, as the code has it. Over the four UTF-8 bytes of \<^verbatim>\<open>"a\r\nb"\<close>, \<^verbatim>\<open>getLine\<close> and
  \<^verbatim>\<open>readLine\<close> first yield a line view over exactly \<^verbatim>\<open>"a"\<close>; its boundary, read by
  \<^verbatim>\<open>getNLF\<close> at offset 1, is a line feed of 2 bytes, so the cursor moves to offset 3. The
  next \<^verbatim>\<open>readLine\<close> fails with a null view and no advance; over the five bytes
  \<^verbatim>\<open>"a\r\nb\0"\<close> it yields a line view over exactly \<^verbatim>\<open>"b"\<close>.

  The rules behind this. For every handler, \<^verbatim>\<open>getNLF\<close> returns what \<^verbatim>\<open>get\<close> returns, with
  a successfully decoded LF, VT, FF, CR, NEL, LS or PS replaced by LF, and with the bytes of
  the following scalar added exactly when a decoded LF is followed by a decoded CR or a
  decoded CR by a decoded LF (the test \<^verbatim>\<open>unicode == (pairing ^ 0x0007)\<close> on a value that is LF
  or CR). Under the UTF-8 handler, on a cursor inside its buffer whose remaining bytes
  start with a run of ASCII bytes other than NUL, LF, VT, FF and CR: when the run reaches
  the end of the cursor, \<^verbatim>\<open>getLine\<close> and \<^verbatim>\<open>readLine\<close> fail with a null view and no advance;
  when a byte NUL, LF, VT, FF or CR follows the run, they return a line view over exactly
  the run, and the advance is the run and its boundary, which is 2 bytes when the byte is
  LF followed by CR or CR followed by LF, and 1 byte otherwise.
\<close>

theorem line_scan_CRLF:
  "(IUTF_getLine CUTF8 \<lparr>length' = 4, offset = 0, buffer = Some [0x61, 0x0D, 0x0A, 0x62]\<rparr>
     = Some (Inr (True, \<lparr>length' = 1, offset = 0, buffer = Some [0x61, 0x0D, 0x0A, 0x62]\<rparr>, 3)) \<and>
   text_bytes \<lparr>length' = 1, offset = 0, buffer = Some [0x61, 0x0D, 0x0A, 0x62]\<rparr> = [0x61] \<and>
   IUTF_getNLF CUTF8 \<lparr>length' = 4, offset = 1, buffer = Some [0x61, 0x0D, 0x0A, 0x62]\<rparr>
     = Inr (True, 0x0A, 2) \<and>
   IUTF_readLine CUTF8 \<lparr>length' = 4, offset = 0, buffer = Some [0x61, 0x0D, 0x0A, 0x62]\<rparr>
     = Some (Inr (True, \<lparr>length' = 1, offset = 0, buffer = Some [0x61, 0x0D, 0x0A, 0x62]\<rparr>,
             \<lparr>length' = 4, offset = 3, buffer = Some [0x61, 0x0D, 0x0A, 0x62]\<rparr>)) \<and>
   IUTF_readLine CUTF8 \<lparr>length' = 4, offset = 3, buffer = Some [0x61, 0x0D, 0x0A, 0x62]\<rparr>
     = Some (Inr (False, no_line,
             \<lparr>length' = 4, offset = 3, buffer = Some [0x61, 0x0D, 0x0A, 0x62]\<rparr>)) \<and>
   IUTF_readLine CUTF8 \<lparr>length' = 5, offset = 3, buffer = Some [0x61, 0x0D, 0x0A, 0x62, 0x00]\<rparr>
     = Some (Inr (True, \<lparr>length' = 1, offset = 0, buffer = Some [0x62, 0x00]\<rparr>,
             \<lparr>length' = 5, offset = 5, buffer = Some [0x61, 0x0D, 0x0A, 0x62, 0x00]\<rparr>)) \<and>
   text_bytes \<lparr>length' = 1, offset = 0, buffer = Some [0x62, 0x00]\<rparr> = [0x62]) \<and>
   (IUTF_get h cursor = Inr (success, unicode, bytes) \<longrightarrow>
    IUTF_get h (cursor\<lparr>offset := offset cursor + bytes\<rparr>) = Inr (paired, pairing, extra) \<longrightarrow>
      IUTF_getNLF h cursor = Inr (success,
        if success \<and> (unicode = 0x000a \<or> unicode = 0x000b \<or> unicode = 0x000c \<or>
             unicode = 0x000d \<or> unicode = 0x0085 \<or> unicode = 0x2028 \<or> unicode = 0x2029)
        then 0x000a else unicode,
        if success \<and> paired \<and> (unicode = 0x000a \<and> pairing = 0x000d \<or>
             unicode = 0x000d \<and> pairing = 0x000a)
        then bytes + extra else bytes)) \<and>
   (buffer view = Some b \<longrightarrow> offset view \<le> length' view \<longrightarrow> unat (length' view) \<le> length b \<longrightarrow>
    list_all plain_ascii (drop (unat (offset view)) (text_bytes view)) \<longrightarrow>
      IUTF_getLine CUTF8 view = Some (Inr (False, no_line, 0)) \<and>
      IUTF_readLine CUTF8 view = Some (Inr (False, no_line, view))) \<and>
   (buffer view = Some b \<longrightarrow> offset view \<le> length' view \<longrightarrow> unat (length' view) \<le> length b \<longrightarrow>
    drop (unat (offset view)) (text_bytes view) = run @ t # rest \<longrightarrow>
    list_all plain_ascii run \<longrightarrow>
    t = 0x00 \<or> t = 0x0a \<or> t = 0x0b \<or> t = 0x0c \<or> t = 0x0d \<longrightarrow>
      IUTF_getLine CUTF8 view
        = Some (Inr (True,
            \<lparr>length' = of_nat (length run), offset = 0,
             buffer = Some (drop (unat (offset view)) b)\<rparr>,
            (if (t = 0x0a \<or> t = 0x0d) \<and> rest \<noteq> [] \<and> hd rest = t XOR 0x07 then 2 else 1)
              + of_nat (length run))) \<and>
      IUTF_readLine CUTF8 view
        = Some (Inr (True,
            \<lparr>length' = of_nat (length run), offset = 0,
             buffer = Some (drop (unat (offset view)) b)\<rparr>,
            view\<lparr>offset := offset view +
              ((if (t = 0x0a \<or> t = 0x0d) \<and> rest \<noteq> [] \<and> hd rest = t XOR 0x07 then 2 else 1)
                + of_nat (length run))\<rparr>)) \<and>
      text_bytes \<lparr>length' = of_nat (length run), offset = 0,
                  buffer = Some (drop (unat (offset view)) b)\<rparr> = run)"
  (is "?bytes \<and> ?boundary \<and> ?none \<and> ?line")
proof -
  have bytes: ?bytes by (rule line_scan_bytes)
  have boundary: ?boundary by (intro impI) (rule getNLF_rule)
  have none: ?none
  proof (intro impI)
    assume "buffer view = Some b" "offset view \<le> length' view" "unat (length' view) \<le> length b"
      "list_all plain_ascii (drop (unat (offset view)) (text_bytes view))"
    then have "IUTF_getLine CUTF8 view = Some (Inr (False, no_line, 0))"
      by (rule getLine_no_line)
    then show "IUTF_getLine CUTF8 view = Some (Inr (False, no_line, 0)) \<and>
      IUTF_readLine CUTF8 view = Some (Inr (False, no_line, view))"
      by (simp add: IUTF_readLine_def)
  qed
  have line: ?line
  proof (intro impI)
    assume a: "buffer view = Some b" "offset view \<le> length' view"
      "unat (length' view) \<le> length b"
      "drop (unat (offset view)) (text_bytes view) = run @ t # rest"
      "list_all plain_ascii run"
      "t = 0x00 \<or> t = 0x0a \<or> t = 0x0b \<or> t = 0x0c \<or> t = 0x0d"
    note g = getLine_line(1) [OF a] and v = getLine_line(2) [OF a]
    show "IUTF_getLine CUTF8 view
        = Some (Inr (True,
            \<lparr>length' = of_nat (length run), offset = 0,
             buffer = Some (drop (unat (offset view)) b)\<rparr>,
            (if (t = 0x0a \<or> t = 0x0d) \<and> rest \<noteq> [] \<and> hd rest = t XOR 0x07 then 2 else 1)
              + of_nat (length run))) \<and>
      IUTF_readLine CUTF8 view
        = Some (Inr (True,
            \<lparr>length' = of_nat (length run), offset = 0,
             buffer = Some (drop (unat (offset view)) b)\<rparr>,
            view\<lparr>offset := offset view +
              ((if (t = 0x0a \<or> t = 0x0d) \<and> rest \<noteq> [] \<and> hd rest = t XOR 0x07 then 2 else 1)
                + of_nat (length run))\<rparr>)) \<and>
      text_bytes \<lparr>length' = of_nat (length run), offset = 0,
                  buffer = Some (drop (unat (offset view)) b)\<rparr> = run"
      using v by (simp add: IUTF_readLine_def g)
  qed
  show ?thesis by (rule conjI [OF bytes conjI [OF boundary conjI [OF none line]]])
qed

theorem line_scan_CRLF_witness:
  "IUTF_get CUTF8 \<lparr>length' = 4, offset = 1, buffer = Some [0x61, 0x0D, 0x0A, 0x62]\<rparr>
     = Inr (True, 0x0D, 1) \<and>
   IUTF_get CUTF8 \<lparr>length' = 4, offset = 2, buffer = Some [0x61, 0x0D, 0x0A, 0x62]\<rparr>
     = Inr (True, 0x0A, 1) \<and>
   IUTF_getNLF CUTF8 \<lparr>length' = 4, offset = 1, buffer = Some [0x61, 0x0D, 0x0A, 0x62]\<rparr>
     = Inr (True, 0x0A, 2) \<and>
   list_all plain_ascii
     (drop 3 (text_bytes \<lparr>length' = 4, offset = 3, buffer = Some [0x61, 0x0D, 0x0A, 0x62]\<rparr>)) \<and>
   IUTF_readLine CUTF8 \<lparr>length' = 4, offset = 3, buffer = Some [0x61, 0x0D, 0x0A, 0x62]\<rparr>
     = Some (Inr (False, no_line,
             \<lparr>length' = 4, offset = 3, buffer = Some [0x61, 0x0D, 0x0A, 0x62]\<rparr>)) \<and>
   drop 3 (text_bytes \<lparr>length' = 6, offset = 3,
                       buffer = Some [0x61, 0x0D, 0x0A, 0x62, 0x0A, 0x0D]\<rparr>)
     = [0x62] @ 0x0A # [0x0D] \<and>
   list_all plain_ascii [0x62] \<and>
   IUTF_readLine CUTF8 \<lparr>length' = 6, offset = 3,
                        buffer = Some [0x61, 0x0D, 0x0A, 0x62, 0x0A, 0x0D]\<rparr>
     = Some (Inr (True, \<lparr>length' = 1, offset = 0, buffer = Some [0x62, 0x0A, 0x0D]\<rparr>,
             \<lparr>length' = 6, offset = 6, buffer = Some [0x61, 0x0D, 0x0A, 0x62, 0x0A, 0x0D]\<rparr>))"
  using
    line_scan_CRLF [where h = CUTF8
      and cursor = "\<lparr>length' = 4, offset = 1, buffer = Some [0x61, 0x0D, 0x0A, 0x62]\<rparr>"
      and success = True and unicode = "0x0D" and bytes = 1
      and paired = True and pairing = "0x0A" and extra = 1
      and view = "\<lparr>length' = 4, offset = 3, buffer = Some [0x61, 0x0D, 0x0A, 0x62]\<rparr>"
      and b = "[0x61, 0x0D, 0x0A, 0x62]" and run = "[0x62]" and t = "0x00" and rest = "[]"]
    line_scan_CRLF [where h = CUTF8
      and cursor = "\<lparr>length' = 4, offset = 1, buffer = Some [0x61, 0x0D, 0x0A, 0x62]\<rparr>"
      and success = True and unicode = "0x0D" and bytes = 1
      and paired = True and pairing = "0x0A" and extra = 1
      and view = "\<lparr>length' = 6, offset = 3,
                   buffer = Some [0x61, 0x0D, 0x0A, 0x62, 0x0A, 0x0D]\<rparr>"
      and b = "[0x61, 0x0D, 0x0A, 0x62, 0x0A, 0x0D]" and run = "[0x62]" and t = "0x0A"
      and rest = "[0x0D]"]
  by (simp add: get_CR_LF text_bytes_def plain_ascii_def)

text \<open>The claim as the specification states it fails: after the line \<^verbatim>\<open>"a"\<close>, the scan
  of the four bytes yields no line view over \<^verbatim>\<open>"b"\<close>.\<close>

theorem line_scan_CRLF_counterexample:
  "IUTF_getLine CUTF8 \<lparr>length' = 4, offset = 3, buffer = Some [0x61, 0x0D, 0x0A, 0x62]\<rparr>
     = Some (Inr (False, \<lparr>length' = 0, offset = 0, buffer = None\<rparr>, 0)) \<and>
   text_bytes \<lparr>length' = 0, offset = 0, buffer = None\<rparr> \<noteq> [0x62]"
  by code_simp

end
